theory Spec2Isabelle
  imports Main "HOL-Library.Sublist"
begin

section \<open>JavaScript values used by the application\<close>

text \<open>
  Strings are lists of code units; the model covers the code units below 256, which is
  what \<^typ>\<open>char\<close> holds. Numbers that the code only counts with are natural numbers.
\<close>

definition digit_char :: "nat \<Rightarrow> char" where
  "digit_char d = ''0123456789'' ! d"

text \<open>\<^verbatim>\<open>String(n)\<close> and template interpolation of a non-negative integer: its decimal digits.\<close>

fun show_nat :: "nat \<Rightarrow> string" where
  "show_nat n = (if n < 10 then [digit_char n] else show_nat (n div 10) @ [digit_char (n mod 10)])"

declare show_nat.simps [simp del]

text \<open>
  \<^verbatim>\<open>toLowerCase\<close> on one code unit: the ASCII capitals and the Latin-1 capitals
  (0xC0 to 0xDE, the multiplication sign 0xD7 apart) move up by 32.
\<close>

definition lower_char :: "char \<Rightarrow> char" where
  "lower_char c =
     (let n = of_char c :: nat in
      if (65 \<le> n \<and> n \<le> 90) \<or> (192 \<le> n \<and> n \<le> 222 \<and> n \<noteq> 215) then char_of (n + 32) else c)"

definition toLowerCase :: "string \<Rightarrow> string" where
  "toLowerCase s = map lower_char s"

text \<open>\<^verbatim>\<open>s.includes(t)\<close>: \<open>t\<close> occurs in \<open>s\<close> as a contiguous substring.\<close>

fun includes_str :: "string \<Rightarrow> string \<Rightarrow> bool" where
  "includes_str [] t = (t = [])"
| "includes_str (c # cs) t = (prefix t (c # cs) \<or> includes_str cs t)"

text \<open>
  White space as \<^verbatim>\<open>\s\<close> and \<^verbatim>\<open>trim\<close> see it (tab, line feed, vertical tab, form
  feed, carriage return, space, no-break space), the line terminators that \<^verbatim>\<open>.\<close>
  refuses (line feed, carriage return), and the digits of \<^verbatim>\<open>\d\<close>.
\<close>

definition is_ws :: "char \<Rightarrow> bool" where
  "is_ws c = (c = CHR 0x09 \<or> c = CHR 0x0A \<or> c = CHR 0x0B \<or> c = CHR 0x0C \<or> c = CHR 0x0D
              \<or> c = CHR 0x20 \<or> c = CHR 0xA0)"

definition is_line_terminator :: "char \<Rightarrow> bool" where
  "is_line_terminator c = (c = CHR 0x0A \<or> c = CHR 0x0D)"

definition is_digit :: "char \<Rightarrow> bool" where
  "is_digit c = (48 \<le> (of_char c :: nat) \<and> (of_char c :: nat) \<le> 57)"

definition trim :: "string \<Rightarrow> string" where
  "trim s = rev (dropWhile is_ws (rev (dropWhile is_ws s)))"

text \<open>
  A thrown value is an \<^verbatim>\<open>Error\<close> object with its message, or any other value, of
  which the handlers read \<^verbatim>\<open>String(err)\<close> and the truthiness.
\<close>

datatype js_thrown = JsError string | JsValue string bool

text \<open>\<^verbatim>\<open>err instanceof Error ? err.message : String(err)\<close>, and \<^verbatim>\<open>err ? .. : ..\<close>.\<close>

fun thrown_text :: "js_thrown \<Rightarrow> string" where
  "thrown_text (JsError m) = m"
| "thrown_text (JsValue s b) = s"

fun thrown_truthy :: "js_thrown \<Rightarrow> bool" where
  "thrown_truthy (JsError m) = True"
| "thrown_truthy (JsValue s b) = b"

datatype js_outcome = Returned | Threw js_thrown

text \<open>
  The value \<^verbatim>\<open>JSON.parse\<close> returns. An object is the list of its own properties; a
  property is read with \<^const>\<open>map_of\<close>. Of a number the code reads the truthiness only:
  integers stand for the numbers.
\<close>

datatype json =
    JNull
  | JBool bool
  | JNum int
  | JStr string
  | JArr "json list"
  | JObj "(string \<times> json) list"

section \<open>The service wrapper (geminiService)\<close>

text \<open>
  The hosted service is outside the repository. Its answers are parameters of the model:
  what each call of the client returns or throws.
\<close>

text \<open>
  Modelled from the spec: the file of type declarations (\<^verbatim>\<open>types.ts\<close>) is not among the
  sources. A grounding chunk is a citation fragment returned with an answer, opaque
  here; a query result is the text of the answer with its grounding chunks, as
  \<^verbatim>\<open>fileSearch\<close> builds it. Of a browser \<^verbatim>\<open>File\<close> the code reads the name; of an
  operation of the client library, the done flag, which may be absent.
\<close>

datatype File = File (name: string)

datatype GroundingChunk = GroundingChunk string

record Operation =
  done_flag :: "bool option"

record QueryResult =
  result_text :: string
  result_groundingChunks :: "GroundingChunk list"

record GenerateContentResponse =
  response_text :: string
  response_chunks :: "GroundingChunk list option"

record remote =
  env_API_KEY :: "string option"
  date_now :: nat
  create_response :: "js_thrown + string option"
  operation_responses :: "nat \<Rightarrow> nat \<Rightarrow> js_thrown + Operation"
  questions_response :: "js_thrown + json"
  search_response :: "js_thrown + GenerateContentResponse"

definition not_initialized :: js_thrown where
  "not_initialized = JsError ''Gemini AI non inizializzato''"

text \<open>
  \<^verbatim>\<open>initialize(apiKey?)\<close>: the key given, else \<^verbatim>\<open>process.env.API_KEY\<close>; with no
  key (absent or empty) it throws, else the client \<^verbatim>\<open>ai\<close> is set.
\<close>

definition initialize :: "string option \<Rightarrow> remote \<Rightarrow> js_thrown + bool" where
  "initialize apiKey r =
     (let keyToUse = (case apiKey of Some k \<Rightarrow> (if k = [] then env_API_KEY r else Some k)
                      | None \<Rightarrow> env_API_KEY r)
      in if keyToUse = None \<or> keyToUse = Some []
         then Inl (JsError (''La Chiave API non '' @ [CHR 0xE8] @
                '' configurata. Forniscine una o imposta la variabile d'' @ [CHR 0x27] @
                ''ambiente API_KEY.''))
         else Inr True)"

definition createRagStore :: "bool \<Rightarrow> remote \<Rightarrow> js_thrown + string" where
  "createRagStore ai r =
     (if \<not> ai then Inl not_initialized
      else case create_response r of
             Inl e \<Rightarrow> Inl e
           | Inr None \<Rightarrow> Inl (JsError (''Impossibile creare l'' @ [CHR 0x27] @ ''archivio RAG: nome mancante.''))
           | Inr (Some n) \<Rightarrow>
               if n = [] then Inl (JsError (''Impossibile creare l'' @ [CHR 0x27] @ ''archivio RAG: nome mancante.''))
               else Inr n)"

text \<open>
  The polling loop of \<^verbatim>\<open>uploadToRagStore\<close>. \<open>ops k\<close> is the answer of the \<open>k\<close>-th
  request about the operation: \<open>ops 0\<close> that of the upload call, \<open>ops (Suc k)\<close> that
  of the \<open>k\<close>-th \<^verbatim>\<open>operations.get\<close>. The loop may run forever, so it is a partial
  function: \<open>None\<close> is "never returns". The value returned is the time slept, in ms.
\<close>

partial_function (option) poll :: "(nat \<Rightarrow> js_thrown + Operation) \<Rightarrow> nat \<Rightarrow> nat \<Rightarrow> Operation \<Rightarrow> (js_thrown + nat) option" where
  "poll ops k slept op =
     (if done_flag op = Some True then Some (Inr slept)
      else case ops k of
             Inl e \<Rightarrow> Some (Inl e)
           | Inr op' \<Rightarrow> poll ops (Suc k) (slept + 3000) op')"

definition uploadToRagStore :: "bool \<Rightarrow> (nat \<Rightarrow> js_thrown + Operation) \<Rightarrow> (js_thrown + nat) option" where
  "uploadToRagStore ai ops =
     (if \<not> ai then Some (Inl not_initialized)
      else case ops 0 of
             Inl e \<Rightarrow> Some (Inl e)
           | Inr op \<Rightarrow> poll ops 1 0 op)"

text \<open>
  An answer that lets the loop go on (an operation not yet done), and one that ends it
  (an operation with the done flag).
\<close>

definition pending :: "js_thrown + Operation \<Rightarrow> bool" where
  "pending a = (case a of Inl e \<Rightarrow> False | Inr op \<Rightarrow> done_flag op \<noteq> Some True)"

definition reports_done :: "js_thrown + Operation \<Rightarrow> bool" where
  "reports_done a = (case a of Inl e \<Rightarrow> False | Inr op \<Rightarrow> done_flag op = Some True)"

definition fileSearch :: "bool \<Rightarrow> remote \<Rightarrow> js_thrown + QueryResult" where
  "fileSearch ai r =
     (if \<not> ai then Inl not_initialized
      else case search_response r of
             Inl e \<Rightarrow> Inl e
           | Inr response \<Rightarrow>
               Inr \<lparr>result_text = response_text response,
                    result_groundingChunks = (case response_chunks response of None \<Rightarrow> [] | Some cs \<Rightarrow> cs)\<rparr>)"

subsection \<open>Example questions: the shapes of the parsed answer\<close>

datatype console = Silent | Warned | Errored

fun js_truthy :: "json \<Rightarrow> bool" where
  "js_truthy JNull = False"
| "js_truthy (JBool b) = b"
| "js_truthy (JNum n) = (n \<noteq> 0)"
| "js_truthy (JStr s) = (s \<noteq> [])"
| "js_truthy (JArr xs) = True"
| "js_truthy (JObj ps) = True"

text \<open>
  \<^verbatim>\<open>item.questions\<close>: reading a property of \<^verbatim>\<open>null\<close> is a TypeError (the outer
  \<open>None\<close>); a value without the property gives \<^verbatim>\<open>undefined\<close> (the inner \<open>None\<close>).
\<close>

fun read_questions :: "json \<Rightarrow> json option option" where
  "read_questions JNull = None"
| "read_questions (JObj ps) = Some (map_of ps ''questions'')"
| "read_questions v = Some None"

text \<open>\<^verbatim>\<open>item.questions || []\<close>, once the property is read.\<close>

fun questions_or_empty :: "json option \<Rightarrow> json" where
  "questions_or_empty None = JArr []"
| "questions_or_empty (Some q) = (if js_truthy q then q else JArr [])"

text \<open>What \<^verbatim>\<open>flatMap\<close> adds for one callback result: an array is spread, one level deep.\<close>

fun spread :: "json \<Rightarrow> json list" where
  "spread (JArr xs) = xs"
| "spread v = [v]"

fun flatMap_questions :: "json list \<Rightarrow> json list option" where
  "flatMap_questions [] = Some []"
| "flatMap_questions (item # items) =
     (case read_questions item of
        None \<Rightarrow> None
      | Some q \<Rightarrow>
          (case flatMap_questions items of
             None \<Rightarrow> None
           | Some rest \<Rightarrow> Some (spread (questions_or_empty q) @ rest)))"

text \<open>\<^verbatim>\<open>.filter(q => typeof q === 'string')\<close>\<close>

fun filter_strings :: "json list \<Rightarrow> string list" where
  "filter_strings [] = []"
| "filter_strings (JStr s # xs) = s # filter_strings xs"
| "filter_strings (v # xs) = filter_strings xs"

text \<open>
  \<^verbatim>\<open>typeof firstItem === 'object' && firstItem !== null && 'questions' in firstItem
  && Array.isArray(firstItem.questions)\<close>
\<close>

fun has_questions_array :: "json \<Rightarrow> bool" where
  "has_questions_array (JObj ps) = (case map_of ps ''questions'' of Some (JArr qs) \<Rightarrow> True | _ \<Rightarrow> False)"
| "has_questions_array v = False"

fun is_JStr :: "json \<Rightarrow> bool" where
  "is_JStr (JStr s) = True"
| "is_JStr v = False"

text \<open>The \<^verbatim>\<open>questions\<close> array of a grouped item \<^verbatim>\<open>{product, questions[]}\<close>.\<close>

fun questions_array :: "json \<Rightarrow> json list" where
  "questions_array (JObj ps) = (case map_of ps ''questions'' of Some (JArr qs) \<Rightarrow> qs | _ \<Rightarrow> [])"
| "questions_array v = []"

text \<open>
  The part of \<^verbatim>\<open>generateExampleQuestions\<close> after \<^verbatim>\<open>JSON.parse\<close>: the questions
  returned and what was logged. A TypeError inside \<^verbatim>\<open>flatMap\<close> is caught by the
  function's own \<^verbatim>\<open>catch\<close>.
\<close>

fun questions_of_parsed :: "json \<Rightarrow> string list \<times> console" where
  "questions_of_parsed (JArr []) = ([], Silent)"
| "questions_of_parsed (JArr (firstItem # items)) =
     (if has_questions_array firstItem then
        (case flatMap_questions (firstItem # items) of
           None \<Rightarrow> ([], Errored)
         | Some qs \<Rightarrow> (filter_strings qs, Silent))
      else if is_JStr firstItem then (filter_strings (firstItem # items), Silent)
      else ([], Warned))"
| "questions_of_parsed v = ([], Warned)"

text \<open>
  \<open>questions_response\<close> is the outcome of the request, of cutting the JSON text out of
  the answer and of \<^verbatim>\<open>JSON.parse\<close>: whatever throws there is caught and logged.
\<close>

definition generateExampleQuestions :: "bool \<Rightarrow> remote \<Rightarrow> js_thrown + string list \<times> console" where
  "generateExampleQuestions ai r =
     (if \<not> ai then Inl not_initialized
      else case questions_response r of
             Inl e \<Rightarrow> Inr ([], Errored)
           | Inr parsedData \<Rightarrow> Inr (questions_of_parsed parsedData))"

section \<open>The application component (App)\<close>

text \<open>
  Modelled from the spec: \<^verbatim>\<open>AppStatus\<close> and \<^verbatim>\<open>ChatMessage\<close> are declared in the file of
  types, which is not among the sources. The status is one of five screens; a chat
  message has a role, its parts in order (each part is a text) and, optionally, the
  grounding chunks.
\<close>

datatype AppStatus = Initializing | Welcome | Uploading | Chatting | Error

datatype Role = User | Model

record ChatMessage =
  role :: Role
  parts :: "string list"
  groundingChunks :: "GroundingChunk list option"

record UploadProgress =
  current :: nat
  total :: nat
  message :: "string option"
  fileName :: "string option"

text \<open>The calls of the service wrapper, in the order the handlers make them.\<close>

datatype service_call =
    Initialize
  | CreateRagStore string
  | UploadToRagStore string File
  | GenerateExampleQuestions string
  | FileSearch string string
  | DeleteRagStore string

text \<open>
  The state of the component that both versions of \<^verbatim>\<open>App\<close> in the repository hold,
  with the client variable \<^verbatim>\<open>ai\<close> of the service module and the log of calls.
  \<^verbatim>\<open>src/App.tsx\<close> adds \<open>isApiKeySelected\<close>.
\<close>

record core_state =
  status :: AppStatus
  isAistudioAvailable :: bool
  apiKeyError :: "string option"
  error :: "string option"
  uploadProgress :: "UploadProgress option"
  activeRagStoreName :: "string option"
  chatHistory :: "ChatMessage list"
  isQueryLoading :: bool
  exampleQuestions :: "string list"
  documentName :: string
  files :: "File list"
  ai :: bool
  calls :: "service_call list"

record app_state = core_state +
  isApiKeySelected :: bool

definition handleError :: "string \<Rightarrow> js_thrown \<Rightarrow> 'a core_state_scheme \<Rightarrow> 'a core_state_scheme" where
  "handleError msg err st =
     st\<lparr>error := Some (msg @ (if thrown_truthy err then '': '' @ thrown_text err else [])),
        status := Error\<rparr>"

definition clearError :: "'a core_state_scheme \<Rightarrow> 'a core_state_scheme" where
  "clearError st = st\<lparr>error := None, status := Welcome\<rparr>"

subsection \<open>Upload: the body of the try block\<close>

definition embedding_message :: string where
  "embedding_message = ''Generazione degli incorporamenti...''"

text \<open>
  The loop over the files. \<open>n\<close> is \<^verbatim>\<open>files.length\<close>, \<open>i\<close> the index of the first
  file left. \<open>begin_file\<close> is the progress update and the call that open an iteration
  (the progress is set before the loop, so the spread of \<^verbatim>\<open>prev\<close> always finds it;
  the upload does not touch \<^verbatim>\<open>ai\<close>). The result of the loop is the value thrown, if
  any, with the state reached; \<open>None\<close> when a polling loop never returns.
\<close>

definition begin_file :: "string \<Rightarrow> nat \<Rightarrow> nat \<Rightarrow> File \<Rightarrow> 'a core_state_scheme \<Rightarrow> 'a core_state_scheme" where
  "begin_file ragStoreName n i f st =
     (let prev = (case uploadProgress st of
                    Some p \<Rightarrow> p
                  | None \<Rightarrow> \<lparr>current = 0, total = 0, message = None, fileName = None\<rparr>)
      in st\<lparr>uploadProgress := Some (prev\<lparr>current := i + 1,
                  message := Some embedding_message,
                  fileName := Some (''('' @ show_nat (i + 1) @ ''/'' @ show_nat n @ '') '' @ name f)\<rparr>),
            calls := calls st @ [UploadToRagStore ragStoreName f]\<rparr>)"

fun upload_files :: "remote \<Rightarrow> string \<Rightarrow> nat \<Rightarrow> nat \<Rightarrow> File list \<Rightarrow> 'a core_state_scheme
    \<Rightarrow> (js_thrown option \<times> 'a core_state_scheme) option" where
  "upload_files r ragStoreName n i [] st = Some (None, st)"
| "upload_files r ragStoreName n i (f # fs) st =
     (case uploadToRagStore (ai st) (operation_responses r i) of
        None \<Rightarrow> None
      | Some (Inl e) \<Rightarrow> Some (Some e, begin_file ragStoreName n i f st)
      | Some (Inr slept) \<Rightarrow> upload_files r ragStoreName n (Suc i) fs (begin_file ragStoreName n i f st))"

text \<open>The document label of a successful upload.\<close>

definition docName :: "File list \<Rightarrow> string" where
  "docName fs =
     (if length fs = 1 then name (fs ! 0)
      else if length fs = 2 then name (fs ! 0) @ '' e '' @ name (fs ! 1)
      else show_nat (length fs) @ '' documenti'')"

definition upload_try :: "remote \<Rightarrow> File list \<Rightarrow> 'a core_state_scheme
    \<Rightarrow> (js_thrown option \<times> 'a core_state_scheme) option" where
  "upload_try r fs st =
     (let totalSteps = length fs + 2;
          storeName = ''chat-session-'' @ show_nat (date_now r);
          st0 = st\<lparr>calls := calls st @ [CreateRagStore storeName]\<rparr>
      in case createRagStore (ai st0) r of
           Inl e \<Rightarrow> Some (Some e, st0)
         | Inr ragStoreName \<Rightarrow>
            (let st1 = st0\<lparr>uploadProgress := Some \<lparr>current = 1, total = totalSteps,
                                  message = Some embedding_message, fileName = None\<rparr>\<rparr>
             in case upload_files r ragStoreName (length fs) 0 fs st1 of
                  None \<Rightarrow> None
                | Some (Some e, st2) \<Rightarrow> Some (Some e, st2)
                | Some (None, st2) \<Rightarrow>
                   (let st3 = st2\<lparr>uploadProgress := Some \<lparr>current = length fs + 1, total = totalSteps,
                                         message = Some ''Generazione di suggerimenti...'', fileName = Some []\<rparr>,
                                    calls := calls st2 @ [GenerateExampleQuestions ragStoreName]\<rparr>
                    in case generateExampleQuestions (ai st3) r of
                         Inl e \<Rightarrow> Some (Some e, st3)
                       | Inr (questions, logged) \<Rightarrow>
                           Some (None,
                             st3\<lparr>exampleQuestions := questions,
                                 uploadProgress := Some \<lparr>current = totalSteps, total = totalSteps,
                                     message = Some ''Tutto pronto!'', fileName = Some []\<rparr>,
                                 documentName := docName fs,
                                 activeRagStoreName := Some ragStoreName,
                                 chatHistory := [],
                                 status := Chatting,
                                 files := []\<rparr>))))"

text \<open>The error signatures that the catch block takes for an invalid credential.\<close>

definition invalid_key_signature :: "js_thrown \<Rightarrow> bool" where
  "invalid_key_signature err =
     (let errorMessage = toLowerCase (thrown_text err)
      in includes_str errorMessage ''api key not valid''
         \<or> includes_str errorMessage ''requested entity was not found'')"

subsection \<open>The handlers of src/App.tsx\<close>

definition key_required :: js_thrown where
  "key_required = JsError ([CHR 0xC8] @ '' richiesta la Chiave API.'')"

definition handleUploadAndStartChat :: "remote \<Rightarrow> app_state \<Rightarrow> (js_outcome \<times> app_state) option" where
  "handleUploadAndStartChat r st =
     (if \<not> isApiKeySelected st then
        Some (Threw key_required,
              st\<lparr>apiKeyError := Some ''Per favore, seleziona o imposta la tua Chiave API Gemini.''\<rparr>)
      else if length (files st) = 0 then Some (Returned, st)
      else
        (let st1 = st\<lparr>apiKeyError := None, calls := calls st @ [Initialize]\<rparr>
         in case initialize None r of
              Inl err \<Rightarrow>
                Some (Threw err,
                  handleError ''Inizializzazione fallita. Assicurati che la tua chiave API sia valida.'' err st1)
            | Inr client \<Rightarrow>
               (let st2 = st1\<lparr>ai := client, status := Uploading,
                              uploadProgress := Some \<lparr>current = 0, total = length (files st) + 2,
                                  message = Some (''Creazione dell'' @ [CHR 0x27] @ ''indice del documento...''),
                                  fileName = None\<rparr>\<rparr>
                in case upload_try r (files st) st2 of
                     None \<Rightarrow> None
                   | Some (None, st3) \<Rightarrow> Some (Returned, st3\<lparr>uploadProgress := None\<rparr>)
                   | Some (Some err, st3) \<Rightarrow>
                       (let st4 = (if invalid_key_signature err then
                                     st3\<lparr>apiKeyError := Some (''La chiave API fornita non '' @ [CHR 0xE8] @
                                            '' valida. Selezionane una diversa o impostane una corretta e riprova.''),
                                         isApiKeySelected := False,
                                         status := Welcome\<rparr>
                                   else handleError ''Impossibile avviare la sessione di chat'' err st3)
                        in Some (Threw err, st4\<lparr>uploadProgress := None\<rparr>)))))"

definition handleEndChat :: "'a core_state_scheme \<Rightarrow> 'a core_state_scheme" where
  "handleEndChat st =
     st\<lparr>calls := (case activeRagStoreName st of
                    None \<Rightarrow> calls st
                  | Some n \<Rightarrow> if n = [] then calls st else calls st @ [DeleteRagStore n]),
        activeRagStoreName := None,
        chatHistory := [],
        exampleQuestions := [],
        documentName := [],
        files := [],
        status := Welcome\<rparr>"

text \<open>
  \<^verbatim>\<open>handleSendMessage\<close>. With no store handle (absent or empty) the handler returns at
  once. Otherwise it appends the user turn, sets the loading flag and issues the query;
  the \<^verbatim>\<open>try\<close> block appends the model turn, the \<^verbatim>\<open>catch\<close> block the apology turn and
  reports the error, and the \<^verbatim>\<open>finally\<close> block clears the loading flag. The handler
  is suspended while the query is awaited, so two states are returned: the one the
  application is in while the query is awaited, and the one the handler leaves.
\<close>

definition handleSendMessage :: "remote \<Rightarrow> string \<Rightarrow> 'a core_state_scheme \<Rightarrow> 'a core_state_scheme \<times> 'a core_state_scheme" where
  "handleSendMessage r msg st =
     (case activeRagStoreName st of
        None \<Rightarrow> (st, st)
      | Some store \<Rightarrow>
          if store = [] then (st, st)
          else
            (let userMessage = \<lparr>role = User, parts = [msg], groundingChunks = None\<rparr>;
                 st1 = st\<lparr>chatHistory := chatHistory st @ [userMessage]\<rparr>;
                 st2 = st1\<lparr>isQueryLoading := True\<rparr>;
                 awaiting = st2\<lparr>calls := calls st2 @ [FileSearch store msg]\<rparr>;
                 st3 = (case fileSearch (ai awaiting) r of
                          Inr result \<Rightarrow>
                            (let modelMessage = \<lparr>role = Model, parts = [result_text result],
                                                 groundingChunks = Some (result_groundingChunks result)\<rparr>
                             in awaiting\<lparr>chatHistory := chatHistory awaiting @ [modelMessage]\<rparr>)
                        | Inl err \<Rightarrow>
                            (let errorMessage = \<lparr>role = Model,
                                                 parts = [''Spiacente, ho riscontrato un errore. Riprova.''],
                                                 groundingChunks = None\<rparr>
                             in handleError ''Impossibile ottenere una risposta'' err
                                  (awaiting\<lparr>chatHistory := chatHistory awaiting @ [errorMessage]\<rparr>)))
             in (awaiting, st3\<lparr>isQueryLoading := False\<rparr>)))"

subsection \<open>The version of App that keeps the session in local storage\<close>

text \<open>
  The repository holds a second version of \<^verbatim>\<open>App\<close> (the document that follows the icon
  in \<^verbatim>\<open>src/components/icons/ClearChatIcon.tsx\<close>). Its credential is a key typed by the
  user or the host's selection; its handlers \<^verbatim>\<open>handleEndChat\<close>, \<^verbatim>\<open>handleSendMessage\<close> and
  \<^verbatim>\<open>handleError\<close> and the try block of the upload are those above.
\<close>

record app_state_ls = core_state +
  isAistudioKeySelected :: bool
  apiKey :: string

definition isApiKeyConfigured :: "app_state_ls \<Rightarrow> bool" where
  "isApiKeyConfigured st = (if isAistudioAvailable st then isAistudioKeySelected st else trim (apiKey st) \<noteq> [])"

definition handleUploadAndStartChat_ls :: "remote \<Rightarrow> app_state_ls \<Rightarrow> (js_outcome \<times> app_state_ls) option" where
  "handleUploadAndStartChat_ls r st =
     (if \<not> isApiKeyConfigured st then
        Some (Threw key_required,
              st\<lparr>apiKeyError := Some ([CHR 0xC8] @ '' richiesta una Chiave API Gemini per continuare.'')\<rparr>)
      else if length (files st) = 0 then Some (Returned, st)
      else
        (let st1 = st\<lparr>apiKeyError := None, calls := calls st @ [Initialize]\<rparr>
         in case initialize (if isAistudioAvailable st then None else Some (apiKey st)) r of
              Inl err \<Rightarrow>
                Some (Threw err,
                  handleError ''Inizializzazione fallita. Assicurati che la tua chiave API sia valida.'' err st1)
            | Inr client \<Rightarrow>
               (let st2 = st1\<lparr>ai := client, status := Uploading,
                              uploadProgress := Some \<lparr>current = 0, total = length (files st) + 2,
                                  message = Some (''Creazione dell'' @ [CHR 0x27] @ ''indice del documento...''),
                                  fileName = None\<rparr>\<rparr>
                in case upload_try r (files st) st2 of
                     None \<Rightarrow> None
                   | Some (None, st3) \<Rightarrow> Some (Returned, st3\<lparr>uploadProgress := None\<rparr>)
                   | Some (Some err, st3) \<Rightarrow>
                       (let st4 = (if invalid_key_signature err then
                                     (if isAistudioAvailable st
                                      then st3\<lparr>apiKeyError := Some (''La Chiave API Gemini non '' @ [CHR 0xE8] @ '' valida.''),
                                               isAistudioKeySelected := False\<rparr>
                                      else st3\<lparr>apiKeyError := Some (''La Chiave API Gemini non '' @ [CHR 0xE8] @ '' valida.'')\<rparr>)
                                     \<lparr>status := Welcome\<rparr>
                                   else handleError ''Impossibile avviare la sessione di chat'' err st3)
                        in Some (Threw err, st4\<lparr>uploadProgress := None\<rparr>)))))"

text \<open>
  \<^verbatim>\<open>localStorage\<close> is a map from keys to strings. \<^verbatim>\<open>JSON.stringify\<close> and
  \<^verbatim>\<open>JSON.parse\<close> on the chat history and on the questions are parameters; a parse that
  throws is \<open>None\<close>.
\<close>

type_synonym storage = "string \<rightharpoonup> string"

record JSON =
  stringify_history :: "ChatMessage list \<Rightarrow> string"
  parse_history :: "string \<Rightarrow> ChatMessage list option"
  stringify_questions :: "string list \<Rightarrow> string"
  parse_questions :: "string \<Rightarrow> string list option"

text \<open>
  The effect that runs after a render in which the store handle, the document name, the
  history or the questions changed: with a handle it writes the four entries, without one
  it removes them. What the storage holds once the updates of a handler are rendered is
  therefore \<open>persist_session\<close> of the state the handler leaves. A second effect keeps the
  key typed by the user.
\<close>

definition remove_session :: "storage \<Rightarrow> storage" where
  "remove_session sto =
     sto(''ragStoreName'' := None, ''documentName'' := None, ''chatHistory'' := None, ''exampleQuestions'' := None)"

definition persist_session :: "JSON \<Rightarrow> 'a core_state_scheme \<Rightarrow> storage \<Rightarrow> storage" where
  "persist_session J st sto =
     (case activeRagStoreName st of
        None \<Rightarrow> remove_session sto
      | Some n \<Rightarrow>
          if n = [] then remove_session sto
          else sto(''ragStoreName'' \<mapsto> n,
                   ''documentName'' \<mapsto> documentName st,
                   ''chatHistory'' \<mapsto> stringify_history J (chatHistory st),
                   ''exampleQuestions'' \<mapsto> stringify_questions J (exampleQuestions st)))"

definition persist_apiKey :: "app_state_ls \<Rightarrow> storage \<Rightarrow> storage" where
  "persist_apiKey st sto = (if apiKey st \<noteq> [] then sto(''geminiApiKey'' \<mapsto> apiKey st) else sto(''geminiApiKey'' := None))"

text \<open>
  The state after a reload: the initialisers of \<^verbatim>\<open>useState\<close> read the storage.
  \<open>item_or\<close> is \<^verbatim>\<open>localStorage.getItem(k) || dflt\<close>.
\<close>

definition item_or :: "storage \<Rightarrow> string \<Rightarrow> string \<Rightarrow> string" where
  "item_or sto k dflt = (case sto k of None \<Rightarrow> dflt | Some v \<Rightarrow> if v = [] then dflt else v)"

definition initial_state :: "JSON \<Rightarrow> storage \<Rightarrow> app_state_ls" where
  "initial_state J sto =
     \<lparr>status = Initializing,
      isAistudioAvailable = False,
      apiKeyError = None,
      error = None,
      uploadProgress = None,
      activeRagStoreName = sto ''ragStoreName'',
      chatHistory = (case parse_history J (item_or sto ''chatHistory'' ''[]'') of None \<Rightarrow> [] | Some h \<Rightarrow> h),
      isQueryLoading = False,
      exampleQuestions = (case parse_questions J (item_or sto ''exampleQuestions'' ''[]'') of None \<Rightarrow> [] | Some q \<Rightarrow> q),
      documentName = item_or sto ''documentName'' [],
      files = [],
      ai = False,
      calls = [],
      isAistudioKeySelected = False,
      apiKey = item_or sto ''geminiApiKey'' []\<rparr>"

definition session_keys :: "string list" where
  "session_keys = [''ragStoreName'', ''documentName'', ''chatHistory'', ''exampleQuestions'']"

section \<open>The Markdown renderer (renderMarkdown of ChatInterface)\<close>

text \<open>\<^verbatim>\<open>text.split('\n')\<close>: the lines between line feeds, scanned from the left with
  the line being read; the empty string is one empty line.\<close>

fun split_from :: "string \<Rightarrow> string \<Rightarrow> string list" where
  "split_from cur [] = [cur]"
| "split_from cur (c # cs) = (if c = CHR 0x0A then cur # split_from [] cs else split_from (cur @ [c]) cs)"

definition split_lines :: "string \<Rightarrow> string list" where
  "split_lines s = split_from [] s"

text \<open>
  The regular expressions of the three substitutions have the form \<^verbatim>\<open>d(.*?)d\<close> for a
  delimiter \<open>d\<close>, or \<^verbatim>\<open>`([^`]+)`\<close>. \<open>lazy_until d s\<close> is \<^verbatim>\<open>(.*?)d\<close> tried at the head
  of \<open>s\<close>: the shortest run of characters other than line terminators that \<open>d\<close>
  follows, and what is left after \<open>d\<close>.
\<close>

fun lazy_until :: "string \<Rightarrow> string \<Rightarrow> (string \<times> string) option" where
  "lazy_until d [] = (if d = [] then Some ([], []) else None)"
| "lazy_until d (c # cs) =
     (if prefix d (c # cs) then Some ([], drop (length d) (c # cs))
      else if is_line_terminator c then None
      else case lazy_until d cs of None \<Rightarrow> None | Some (inner, rest) \<Rightarrow> Some (c # inner, rest))"

definition delimited :: "string \<Rightarrow> string \<Rightarrow> (string \<times> string) option" where
  "delimited d s = (if prefix d s then lazy_until d (drop (length d) s) else None)"

text \<open>
  One attempt of a substitution at the head of the string: the text captured and the
  rest of the string after the match. The alternatives are tried in the order written.
\<close>

datatype inline = Strong | Em | Code

fun match_inline :: "inline \<Rightarrow> string \<Rightarrow> (string \<times> string) option" where
  "match_inline Strong s = (case delimited ''**'' s of Some m \<Rightarrow> Some m | None \<Rightarrow> delimited ''__'' s)"
| "match_inline Em s = (case delimited ''*'' s of Some m \<Rightarrow> Some m | None \<Rightarrow> delimited ''_'' s)"
| "match_inline Code s =
     (case s of
        [] \<Rightarrow> None
      | c # cs \<Rightarrow>
          if c = CHR 0x60 \<and> takeWhile (\<lambda>x. x \<noteq> CHR 0x60) cs \<noteq> [] \<and> dropWhile (\<lambda>x. x \<noteq> CHR 0x60) cs \<noteq> []
          then Some (takeWhile (\<lambda>x. x \<noteq> CHR 0x60) cs, tl (dropWhile (\<lambda>x. x \<noteq> CHR 0x60) cs))
          else None)"

fun open_tag :: "inline \<Rightarrow> string" where
  "open_tag Strong = ''<strong>''"
| "open_tag Em = ''<em>''"
| "open_tag Code = ''<code class='' @ [CHR 0x22] @ ''bg-hitech-surface/50 px-1 py-0.5 rounded-sm font-mono text-sm'' @ [CHR 0x22] @ ''>''"

fun close_tag :: "inline \<Rightarrow> string" where
  "close_tag Strong = ''</strong>''"
| "close_tag Em = ''</em>''"
| "close_tag Code = ''</code>''"

text \<open>A match consumes at least its delimiters, so the global replacement terminates.\<close>

lemma lazy_until_length: "lazy_until d s = Some (inner, rest) \<Longrightarrow> length rest \<le> length s"
  by (induction s arbitrary: inner rest) (auto split: if_splits option.splits)

lemma delimited_length: "delimited d s = Some (inner, rest) \<Longrightarrow> d \<noteq> [] \<Longrightarrow> length rest < length s"
proof -
  assume a: "delimited d s = Some (inner, rest)" and d: "d \<noteq> []"
  from a have p: "prefix d s" and l: "lazy_until d (drop (length d) s) = Some (inner, rest)"
    by (auto simp: delimited_def split: if_splits)
  from p obtain zs where s: "s = d @ zs" by (auto simp: prefix_def)
  from lazy_until_length[OF l] s have "length rest \<le> length zs" by simp
  moreover from d obtain x xs where "d = x # xs" by (cases d) auto
  ultimately show ?thesis using s by simp
qed

lemma match_inline_length: "match_inline k s = Some (inner, rest) \<Longrightarrow> length rest < length s"
proof (cases k)
  case Strong
  assume "match_inline k s = Some (inner, rest)"
  with Strong show ?thesis by (auto split: option.splits dest: delimited_length)
next
  case Em
  assume "match_inline k s = Some (inner, rest)"
  with Em show ?thesis by (auto split: option.splits dest: delimited_length)
next
  case Code
  assume a: "match_inline k s = Some (inner, rest)"
  with Code obtain c cs where s: "s = c # cs" and r: "rest = tl (dropWhile (\<lambda>x. x \<noteq> CHR 0x60) cs)"
    by (cases s) (auto split: if_splits)
  have "length (tl (dropWhile (\<lambda>x. x \<noteq> CHR 0x60) cs)) \<le> length cs"
    using length_dropWhile_le[of "\<lambda>x. x \<noteq> CHR 0x60" cs] by simp
  with s r show ?thesis by simp
qed

text \<open>
  \<^verbatim>\<open>s.replace(re, '<tag>$1$2</tag>')\<close> with the global flag: at each position the
  match is tried; a match is replaced and the scan goes on after it, else the character
  is copied. An alternative that did not take part gives the empty string for its group.
\<close>

function replace_inline :: "inline \<Rightarrow> string \<Rightarrow> string" where
  "replace_inline k [] = []"
| "replace_inline k (c # cs) =
     (case match_inline k (c # cs) of
        Some (inner, rest) \<Rightarrow> open_tag k @ inner @ close_tag k @ replace_inline k rest
      | None \<Rightarrow> c # replace_inline k cs)"
  by pat_completeness auto
termination
  by (relation "measure (\<lambda>(k, s). length s)") (auto dest: match_inline_length)

definition inline_markup :: "string \<Rightarrow> string" where
  "inline_markup rawLine = replace_inline Code (replace_inline Em (replace_inline Strong rawLine))"

text \<open>
  The list patterns \<^verbatim>\<open>^\s*\d+\.\s(.*)\<close> and \<^verbatim>\<open>^\s*[\*\-]\s(.*)\<close>; the result is the text
  captured by \<^verbatim>\<open>(.*)\<close>, which stops at a line terminator.
\<close>

definition rest_of_line :: "string \<Rightarrow> string" where
  "rest_of_line s = takeWhile (\<lambda>c. \<not> is_line_terminator c) s"

definition match_ol :: "string \<Rightarrow> string option" where
  "match_ol line =
     (let afterSpace = dropWhile is_ws line;
          digits = takeWhile is_digit afterSpace
      in if digits = [] then None
         else case dropWhile is_digit afterSpace of
                dot # sp # item \<Rightarrow>
                  if dot = CHR ''.'' \<and> is_ws sp then Some (rest_of_line item) else None
              | _ \<Rightarrow> None)"

definition match_ul :: "string \<Rightarrow> string option" where
  "match_ul line =
     (case dropWhile is_ws line of
        bullet # sp # item \<Rightarrow>
          if (bullet = CHR ''*'' \<or> bullet = CHR ''-'') \<and> is_ws sp then Some (rest_of_line item) else None
      | _ \<Rightarrow> None)"

text \<open>The state of the loop: the fragment so far, the list that is open, the paragraph buffer.\<close>

datatype list_type = Ul | Ol

fun tag_name :: "list_type \<Rightarrow> string" where
  "tag_name Ul = ''ul''"
| "tag_name Ol = ''ol''"

record render_state =
  html :: string
  listType :: "list_type option"
  paraBuffer :: string

definition flushPara :: "render_state \<Rightarrow> render_state" where
  "flushPara st =
     (if paraBuffer st \<noteq> []
      then st\<lparr>html := html st @ ''<p class='' @ [CHR 0x22] @ ''my-2'' @ [CHR 0x22] @ ''>'' @ paraBuffer st @ ''</p>'',
              paraBuffer := []\<rparr>
      else st)"

definition flushList :: "render_state \<Rightarrow> render_state" where
  "flushList st =
     (case listType st of
        Some t \<Rightarrow> st\<lparr>html := html st @ ''</'' @ tag_name t @ ''>'', listType := None\<rparr>
      | None \<Rightarrow> st)"

definition ol_open :: string where
  "ol_open = ''<ol class='' @ [CHR 0x22] @ ''list-decimal list-inside my-2 pl-5 space-y-1'' @ [CHR 0x22] @ ''>''"

definition ul_open :: string where
  "ul_open = ''<ul class='' @ [CHR 0x22] @ ''list-disc list-inside my-2 pl-5 space-y-1'' @ [CHR 0x22] @ ''>''"

definition render_line :: "render_state \<Rightarrow> string \<Rightarrow> render_state" where
  "render_line st rawLine =
     (let line = inline_markup rawLine
      in case match_ol line of
           Some item \<Rightarrow>
             (let st1 = flushPara st;
                  st2 = (if listType st1 \<noteq> Some Ol
                         then (let st' = flushList st1 in st'\<lparr>html := html st' @ ol_open, listType := Some Ol\<rparr>)
                         else st1)
              in st2\<lparr>html := html st2 @ ''<li>'' @ item @ ''</li>''\<rparr>)
         | None \<Rightarrow>
            (case match_ul line of
               Some item \<Rightarrow>
                 (let st1 = flushPara st;
                      st2 = (if listType st1 \<noteq> Some Ul
                             then (let st' = flushList st1 in st'\<lparr>html := html st' @ ul_open, listType := Some Ul\<rparr>)
                             else st1)
                  in st2\<lparr>html := html st2 @ ''<li>'' @ item @ ''</li>''\<rparr>)
             | None \<Rightarrow>
                (let st1 = flushList st
                 in if trim line = [] then flushPara st1
                    else st1\<lparr>paraBuffer := paraBuffer st1 @ (if paraBuffer st1 \<noteq> [] then ''<br/>'' else []) @ line\<rparr>)))"

definition renderMarkdown :: "string \<Rightarrow> string" where
  "renderMarkdown text =
     (if text = [] then []
      else html (flushList (flushPara
             (foldl render_line \<lparr>html = [], listType = None, paraBuffer = []\<rparr> (split_lines text)))))"

subsection \<open>Reading the fragment\<close>

text \<open>
  The characters that the three substitutions look for, the text with every line feed
  replaced by a line break element, and a line that the renderer leaves as it is: no
  substitution changes it, neither list pattern matches it, and it is not blank
  (\<^verbatim>\<open>trim\<close> leaves something).
\<close>

definition is_marker :: "char \<Rightarrow> bool" where
  "is_marker c = (c = CHR ''*'' \<or> c = CHR ''_'' \<or> c = CHR 0x60)"

definition br_text :: "string \<Rightarrow> string" where
  "br_text s = concat (map (\<lambda>c. if c = CHR 0x0A then ''<br/>'' else [c]) s)"

definition plain_line :: "string \<Rightarrow> bool" where
  "plain_line l = (inline_markup l = l \<and> match_ol l = None \<and> match_ul l = None \<and> trim l \<noteq> [])"

text \<open>
  The list tags of a fragment, in the order they occur: a start tag is \<open><\<close>, the name
  \<open>ol\<close> or \<open>ul\<close> in either case, then white space, \<open>/\<close> or \<open>>\<close>; an end tag has
  \<open>/\<close> before the name. \<open>nested\<close> is the balance of the tags with a stack;
  \<open>one_open\<close> says moreover that no list is opened while another is open.
\<close>

datatype list_tag = Opening list_type | Closing list_type

definition tag_end :: "string \<Rightarrow> bool" where
  "tag_end s = (case s of [] \<Rightarrow> False | c # cs \<Rightarrow> c = CHR ''>'' \<or> c = CHR ''/'' \<or> is_ws c)"

fun name_at :: "string \<Rightarrow> list_type option" where
  "name_at (c1 # c2 # s) =
     (if (c1 = CHR ''o'' \<or> c1 = CHR ''O'') \<and> (c2 = CHR ''l'' \<or> c2 = CHR ''L'') \<and> tag_end s then Some Ol
      else if (c1 = CHR ''u'' \<or> c1 = CHR ''U'') \<and> (c2 = CHR ''l'' \<or> c2 = CHR ''L'') \<and> tag_end s then Some Ul
      else None)"
| "name_at s = None"

fun tag_at :: "string \<Rightarrow> list_tag option" where
  "tag_at [] = None"
| "tag_at (c # cs) =
     (if c \<noteq> CHR ''<'' then None
      else case cs of
             [] \<Rightarrow> None
           | c' # r \<Rightarrow> if c' = CHR ''/'' then map_option Closing (name_at r) else map_option Opening (name_at cs))"

fun list_tags :: "string \<Rightarrow> list_tag list" where
  "list_tags [] = []"
| "list_tags (c # cs) = (case tag_at (c # cs) of Some t \<Rightarrow> t # list_tags cs | None \<Rightarrow> list_tags cs)"

fun nested :: "list_type list \<Rightarrow> list_tag list \<Rightarrow> bool" where
  "nested stack [] = (stack = [])"
| "nested stack (Opening t # ts) = nested (t # stack) ts"
| "nested [] (Closing t # ts) = False"
| "nested (t' # stack) (Closing t # ts) = (t = t' \<and> nested stack ts)"

fun one_open :: "list_type option \<Rightarrow> list_tag list \<Rightarrow> bool" where
  "one_open cur [] = (cur = None)"
| "one_open cur (Opening t # ts) = (cur = None \<and> one_open (Some t) ts)"
| "one_open cur (Closing t # ts) = (cur = Some t \<and> one_open None ts)"

text \<open>
  What the loop appends to the fragment, piece by piece, from a state with the list
  \<open>cur\<close> open and the paragraph buffer \<open>b\<close> over the lines left, the two final flushes
  included. The properties below show that the fragment is the concatenation of these
  pieces.
\<close>

datatype piece = Para string | ListOpen list_type | ListClose list_type | Item string

fun piece_html :: "piece \<Rightarrow> string" where
  "piece_html (Para b) = ''<p class='' @ [CHR 0x22] @ ''my-2'' @ [CHR 0x22] @ ''>'' @ b @ ''</p>''"
| "piece_html (ListOpen Ol) = ol_open"
| "piece_html (ListOpen Ul) = ul_open"
| "piece_html (ListClose t) = ''</'' @ tag_name t @ ''>''"
| "piece_html (Item i) = ''<li>'' @ i @ ''</li>''"

fun piece_tags :: "piece \<Rightarrow> list_tag list" where
  "piece_tags (ListOpen t) = [Opening t]"
| "piece_tags (ListClose t) = [Closing t]"
| "piece_tags p = []"

definition para_pieces :: "string \<Rightarrow> piece list" where
  "para_pieces b = (if b \<noteq> [] then [Para b] else [])"

definition close_pieces :: "list_type option \<Rightarrow> piece list" where
  "close_pieces cur = (case cur of Some t \<Rightarrow> [ListClose t] | None \<Rightarrow> [])"

fun pieces :: "list_type option \<Rightarrow> string \<Rightarrow> string list \<Rightarrow> piece list" where
  "pieces cur b [] = para_pieces b @ close_pieces cur"
| "pieces cur b (rawLine # ls) =
     (let line = inline_markup rawLine
      in case match_ol line of
           Some item \<Rightarrow>
             para_pieces b @ (if cur \<noteq> Some Ol then close_pieces cur @ [ListOpen Ol] else []) @ [Item item]
               @ pieces (Some Ol) [] ls
         | None \<Rightarrow>
            (case match_ul line of
               Some item \<Rightarrow>
                 para_pieces b @ (if cur \<noteq> Some Ul then close_pieces cur @ [ListOpen Ul] else []) @ [Item item]
                   @ pieces (Some Ul) [] ls
             | None \<Rightarrow>
                 close_pieces cur @
                   (if trim line = [] then para_pieces b @ pieces None [] ls
                    else pieces None (b @ (if b \<noteq> [] then ''<br/>'' else []) @ line) ls)))"

text \<open>
  Used in the proofs: a string in which every \<open><\<close> starts one of the six tags that the
  substitutions write (\<open>ok\<close>), the characters of these tags, and a string that adds no
  list tag to whatever follows it (\<open>inert\<close>).
\<close>

definition template_tail :: "string \<Rightarrow> bool" where
  "template_tail p = (\<exists>k. p = tl (open_tag k) \<or> p = tl (close_tag k))"

fun ok :: "string \<Rightarrow> bool" where
  "ok [] = True"
| "ok (c # cs) = ((c = CHR ''<'' \<longrightarrow> (\<exists>p. template_tail p \<and> prefix p cs)) \<and> ok cs)"

definition template_char :: "char \<Rightarrow> bool" where
  "template_char c = (\<exists>k. c \<in> set (open_tag k) \<or> c \<in> set (close_tag k))"

definition inert :: "string \<Rightarrow> bool" where
  "inert s = (\<forall>r. list_tags (s @ r) = list_tags r)"

fun piece_inert :: "piece \<Rightarrow> bool" where
  "piece_inert (Para b) = inert b"
| "piece_inert (Item i) = inert i"
| "piece_inert p = True"

section \<open>Example inputs\<close>

text \<open>A service that answers every call at once, and the state of the welcome screen.\<close>

definition prompt_remote :: remote where
  "prompt_remote =
     \<lparr>env_API_KEY = Some ''key'',
      date_now = 1700000000000,
      create_response = Inr (Some ''fileSearchStores/s1''),
      operation_responses = (\<lambda>i k. Inr \<lparr>done_flag = Some True\<rparr>),
      questions_response = Inr (JArr [JStr ''q1'', JStr ''q2'']),
      search_response = Inr \<lparr>response_text = ''answer'', response_chunks = None\<rparr>\<rparr>"

definition welcome_state :: "bool \<Rightarrow> File list \<Rightarrow> app_state" where
  "welcome_state key fs =
     \<lparr>status = Welcome, isAistudioAvailable = False, apiKeyError = None, error = None,
      uploadProgress = None, activeRagStoreName = None, chatHistory = [], isQueryLoading = False,
      exampleQuestions = [], documentName = [], files = fs, ai = False, calls = [],
      isApiKeySelected = key\<rparr>"

definition failing_remote :: "js_thrown \<Rightarrow> remote" where
  "failing_remote e = prompt_remote\<lparr>create_response := Inl e\<rparr>"

definition chatting_state :: app_state where
  "chatting_state = (welcome_state True [])\<lparr>status := Chatting, ai := True,
      activeRagStoreName := Some ''fileSearchStores/s1'', documentName := ''a.pdf''\<rparr>"

definition done_after :: "nat \<Rightarrow> nat \<Rightarrow> js_thrown + Operation" where
  "done_after n k = Inr \<lparr>done_flag = (if k < n then None else Some True)\<rparr>"

definition grouped_1 :: json where
  "grouped_1 = JObj [(''product'', JStr ''Prodotto A''), (''questions'', JArr [JStr ''d1'', JStr ''d2''])]"

definition grouped_2 :: json where
  "grouped_2 = JObj [(''product'', JStr ''Prodotto B''), (''questions'', JArr [JStr ''d3'', JNum 4])]"

definition answering :: "json \<Rightarrow> remote" where
  "answering parsed = prompt_remote\<lparr>questions_response := Inr parsed\<rparr>"

definition alternating_lists :: string where
  "alternating_lists = ''1. a'' @ [CHR 0x0A] @ ''- b'' @ [CHR 0x0A] @ ''2. c'' @ [CHR 0x0A] @ ''* d''"

definition welcome_state_ls :: "string \<Rightarrow> File list \<Rightarrow> app_state_ls" where
  "welcome_state_ls k fs =
     \<lparr>status = Welcome, isAistudioAvailable = False, apiKeyError = None, error = None,
      uploadProgress = None, activeRagStoreName = None, chatHistory = [], isQueryLoading = False,
      exampleQuestions = [], documentName = [], files = fs, ai = False, calls = [],
      isAistudioKeySelected = False, apiKey = k\<rparr>"

definition two_questions_text :: string where
  "two_questions_text = ''['' @ [CHR 0x22] @ ''q1'' @ [CHR 0x22] @ '','' @ [CHR 0x22] @ ''q2'' @ [CHR 0x22] @ '']''"

text \<open>
  A session in which one message was sent and answered, and a codec that knows the
  values of these examples.
\<close>

definition hello_history :: "ChatMessage list" where
  "hello_history =
     [\<lparr>role = User, parts = [''hello''], groundingChunks = None\<rparr>,
      \<lparr>role = Model, parts = [''answer''], groundingChunks = Some []\<rparr>]"

definition hello_history_text :: string where
  "hello_history_text =
     ''[{role:user,parts:[{text:hello}]},{role:model,parts:[{text:answer}],groundingChunks:[]}]''"

definition example_JSON :: JSON where
  "example_JSON =
     \<lparr>stringify_history = (\<lambda>h. if h = [] then ''[]'' else if h = hello_history then hello_history_text else ''[{}]''),
      parse_history = (\<lambda>s. if s = ''[]'' then Some []
                             else if s = hello_history_text then Some hello_history else None),
      stringify_questions = (\<lambda>q. if q = [''q1'', ''q2''] then two_questions_text else ''[]''),
      parse_questions = (\<lambda>s. if s = two_questions_text then Some [''q1'', ''q2'']
                               else if s = ''[]'' then Some [] else None)\<rparr>"

section \<open>Properties of the upload flow\<close>

lemma poll_done: "done_flag op = Some True \<Longrightarrow> poll ops k slept op = Some (Inr slept)"
  by (subst poll.simps) simp

lemma poll_pending:
  "done_flag op \<noteq> Some True \<Longrightarrow>
   poll ops k slept op = (case ops k of Inl e \<Rightarrow> Some (Inl e) | Inr op' \<Rightarrow> poll ops (Suc k) (slept + 3000) op')"
  by (subst poll.simps) simp

lemma begin_file_frame:
  "\<exists>p c. begin_file s n i f st = st\<lparr>uploadProgress := p, calls := c\<rparr>"
  unfolding begin_file_def Let_def by blast

lemma ai_begin_file: "ai (begin_file s n i f st) = ai st"
  by (simp add: begin_file_def Let_def)

lemma upload_files_frame:
  "upload_files r s n i fs st = Some (res, st') \<Longrightarrow> \<exists>p c. st' = st\<lparr>uploadProgress := p, calls := c\<rparr>"
proof (induction fs arbitrary: i st)
  case Nil
  then have "st' = st\<lparr>uploadProgress := uploadProgress st, calls := calls st\<rparr>" by simp
  then show ?case by blast
next
  case (Cons f fs)
  obtain p1 c1 where b: "begin_file s n i f st = st\<lparr>uploadProgress := p1, calls := c1\<rparr>"
    using begin_file_frame by blast
  show ?case
  proof (cases "uploadToRagStore (ai st) (operation_responses r i)")
    case None
    with Cons.prems show ?thesis by simp
  next
    case (Some a)
    show ?thesis
    proof (cases a)
      case (Inl e)
      with Some Cons.prems have "st' = begin_file s n i f st" by simp
      with b show ?thesis by blast
    next
      case (Inr w)
      with Some Cons.prems have "upload_files r s n (Suc i) fs (begin_file s n i f st) = Some (res, st')" by simp
      from Cons.IH[OF this] obtain p c where "st' = (begin_file s n i f st)\<lparr>uploadProgress := p, calls := c\<rparr>" by blast
      then have "st' = st\<lparr>uploadProgress := p, calls := c\<rparr>" by (simp add: b)
      then show ?thesis by blast
    qed
  qed
qed

lemma upload_try_failure_frame:
  "upload_try r fs st = Some (Some e, st') \<Longrightarrow> \<exists>p c. st' = st\<lparr>uploadProgress := p, calls := c\<rparr>"
proof -
  assume a: "upload_try r fs st = Some (Some e, st')"
  define st0 where "st0 = st\<lparr>calls := calls st @ [CreateRagStore (''chat-session-'' @ show_nat (date_now r))]\<rparr>"
  show ?thesis
  proof (cases "createRagStore (ai st0) r")
    case (Inl e')
    with a have "st' = st0" by (simp add: upload_try_def Let_def st0_def)
    then have "st' = st\<lparr>uploadProgress := uploadProgress st, calls := calls st0\<rparr>" by (simp add: st0_def)
    then show ?thesis by blast
  next
    case (Inr store)
    define st1 where "st1 = st0\<lparr>uploadProgress := Some \<lparr>current = 1, total = length fs + 2,
                                  message = Some embedding_message, fileName = None\<rparr>\<rparr>"
    show ?thesis
    proof (cases "upload_files r store (length fs) 0 fs st1")
      case None
      with a Inr show ?thesis by (simp add: upload_try_def Let_def st0_def st1_def)
    next
      case (Some res)
      obtain t st2 where res: "res = (t, st2)" by (cases res)
      from upload_files_frame[OF Some[unfolded res]] obtain p c where st2: "st2 = st1\<lparr>uploadProgress := p, calls := c\<rparr>" by blast
      show ?thesis
      proof (cases t)
        case (Some e2)
        with a Inr \<open>upload_files r store (length fs) 0 fs st1 = Some res\<close> res
        have "st' = st2" by (simp add: upload_try_def Let_def st0_def st1_def)
        then have "st' = st\<lparr>uploadProgress := p, calls := c\<rparr>" by (simp add: st2 st1_def st0_def)
        then show ?thesis by blast
      next
        case None
        with a Inr \<open>upload_files r store (length fs) 0 fs st1 = Some res\<close> res
        have "st' = st2\<lparr>uploadProgress := Some \<lparr>current = length fs + 1, total = length fs + 2,
                                         message = Some ''Generazione di suggerimenti...'', fileName = Some []\<rparr>,
                                    calls := calls st2 @ [GenerateExampleQuestions store]\<rparr>"
          by (simp add: upload_try_def Let_def st0_def st1_def split: sum.splits prod.splits)
        then show ?thesis by (simp add: st2 st1_def st0_def) blast
      qed
    qed
  qed
qed

lemma createRagStore_nonempty: "createRagStore a r = Inr store \<Longrightarrow> store \<noteq> []"
  by (auto simp: createRagStore_def split: if_splits sum.splits option.splits)

lemma upload_try_success:
  assumes a: "upload_try r fs st = Some (None, st')"
  shows "\<exists>store qs lg p c. createRagStore (ai st) r = Inr store \<and> store \<noteq> []
           \<and> generateExampleQuestions (ai st) r = Inr (qs, lg)
           \<and> st' = st\<lparr>exampleQuestions := qs, uploadProgress := p, documentName := docName fs,
                   activeRagStoreName := Some store, chatHistory := [], status := Chatting,
                   files := [], calls := c\<rparr>"
proof -
  define st0 where "st0 = st\<lparr>calls := calls st @ [CreateRagStore (''chat-session-'' @ show_nat (date_now r))]\<rparr>"
  have ai0: "ai st0 = ai st" by (simp add: st0_def)
  show ?thesis
  proof (cases "createRagStore (ai st0) r")
    case (Inl e')
    with a show ?thesis by (simp add: upload_try_def Let_def st0_def)
  next
    case (Inr store)
    define st1 where "st1 = st0\<lparr>uploadProgress := Some \<lparr>current = 1, total = length fs + 2,
                                  message = Some embedding_message, fileName = None\<rparr>\<rparr>"
    show ?thesis
    proof (cases "upload_files r store (length fs) 0 fs st1")
      case None
      with a Inr show ?thesis by (simp add: upload_try_def Let_def st0_def st1_def)
    next
      case (Some res)
      obtain t st2 where res: "res = (t, st2)" by (cases res)
      from upload_files_frame[OF Some[unfolded res]] obtain p c where st2: "st2 = st1\<lparr>uploadProgress := p, calls := c\<rparr>" by blast
      have ai2: "ai st2 = ai st" by (simp add: st2 st1_def st0_def)
      show ?thesis
      proof (cases t)
        case (Some e2)
        with a Inr \<open>upload_files r store (length fs) 0 fs st1 = Some res\<close> res
        show ?thesis by (simp add: upload_try_def Let_def st0_def st1_def)
      next
        case None
        define st3 where "st3 = st2\<lparr>uploadProgress := Some \<lparr>current = length fs + 1, total = length fs + 2,
                                         message = Some ''Generazione di suggerimenti...'', fileName = Some []\<rparr>,
                                    calls := calls st2 @ [GenerateExampleQuestions store]\<rparr>"
        have ai3: "ai st3 = ai st" by (simp add: st3_def ai2)
        show ?thesis
        proof (cases "generateExampleQuestions (ai st) r")
          case (Inl e3)
          with a Inr None \<open>upload_files r store (length fs) 0 fs st1 = Some res\<close> res ai2
          show ?thesis by (simp add: upload_try_def Let_def st0_def st1_def)
        next
          case (Inr v)
          obtain qs lg where v: "v = (qs, lg)" by (cases v)
          from a \<open>createRagStore (ai st0) r = Inr store\<close> None \<open>upload_files r store (length fs) 0 fs st1 = Some res\<close> res ai2 Inr v
          have "st' = st3\<lparr>exampleQuestions := qs,
                                 uploadProgress := Some \<lparr>current = length fs + 2, total = length fs + 2,
                                     message = Some ''Tutto pronto!'', fileName = Some []\<rparr>,
                                 documentName := docName fs,
                                 activeRagStoreName := Some store,
                                 chatHistory := [],
                                 status := Chatting,
                                 files := []\<rparr>"
            by (simp add: upload_try_def Let_def st0_def st1_def st3_def)
          then have "st' = st\<lparr>exampleQuestions := qs, uploadProgress := Some \<lparr>current = length fs + 2, total = length fs + 2,
                                     message = Some ''Tutto pronto!'', fileName = Some []\<rparr>, documentName := docName fs,
                   activeRagStoreName := Some store, chatHistory := [], status := Chatting,
                   files := [], calls := c @ [GenerateExampleQuestions store]\<rparr>"
            by (simp add: st3_def st2 st1_def st0_def)
          moreover have "createRagStore (ai st) r = Inr store" using \<open>createRagStore (ai st0) r = Inr store\<close> ai0 by simp
          moreover have "store \<noteq> []" using createRagStore_nonempty[OF \<open>createRagStore (ai st0) r = Inr store\<close>] .
          ultimately show ?thesis using Inr v by blast
        qed
      qed
    qed
  qed
qed

text \<open>
  Claim C3. When \<^verbatim>\<open>handleUploadAndStartChat\<close> returns normally after uploading the
  selected files, the document label is the name of the file when there is one file,
  the two names joined by \<open>" e "\<close> when there are two, and the number of files
  followed by \<open>" documenti"\<close> when there are more than two.
\<close>

theorem document_label:
  assumes "handleUploadAndStartChat r st = Some (Returned, st')"
  shows "(\<forall>x. files st = [x] \<longrightarrow> documentName st' = name x)
       \<and> (\<forall>x y. files st = [x, y] \<longrightarrow> documentName st' = name x @ '' e '' @ name y)
       \<and> (2 < length (files st) \<longrightarrow> documentName st' = show_nat (length (files st)) @ '' documenti'')"
proof -
  have "documentName st' = docName (files st)" if ne: "files st \<noteq> []"
  proof -
    from assms ne obtain c st2 st3 where
      "upload_try r (files st) st2 = Some (None, st3)" and "st' = st3\<lparr>uploadProgress := None\<rparr>"
      by (auto simp: handleUploadAndStartChat_def Let_def split: if_splits sum.splits option.splits prod.splits)
    with upload_try_success[of r "files st" st2 st3] show ?thesis by auto
  qed
  then have d: "documentName st' = docName (files st)" if "0 < length (files st)"
    using that by simp
  show ?thesis
  proof (intro conjI allI impI)
    fix x assume "files st = [x]"
    with d show "documentName st' = name x" by (simp add: docName_def)
  next
    fix x y assume "files st = [x, y]"
    with d show "documentName st' = name x @ '' e '' @ name y" by (simp add: docName_def)
  next
    assume "2 < length (files st)"
    moreover from this have "0 < length (files st)" by (cases "files st") simp_all
    ultimately show "documentName st' = show_nat (length (files st)) @ '' documenti''"
      using d by (simp add: docName_def)
  qed
qed

theorem document_label_witness:
  "documentName (snd (the (handleUploadAndStartChat prompt_remote (welcome_state True [File ''a.pdf''])))) = ''a.pdf''
   \<and> documentName (snd (the (handleUploadAndStartChat prompt_remote (welcome_state True [File ''a.pdf'', File ''b.md''])))) = ''a.pdf e b.md''
   \<and> documentName (snd (the (handleUploadAndStartChat prompt_remote
        (welcome_state True [File ''a.pdf'', File ''b.md'', File ''c.txt''])))) = ''3 documenti''"
proof -
  have ev: "\<exists>st'. handleUploadAndStartChat prompt_remote (welcome_state True fs) = Some (Returned, st')"
    if "fs = [File ''a.pdf''] \<or> fs = [File ''a.pdf'', File ''b.md''] \<or> fs = [File ''a.pdf'', File ''b.md'', File ''c.txt'']" for fs
    using that
    by (auto simp: handleUploadAndStartChat_def welcome_state_def prompt_remote_def initialize_def Let_def
          upload_try_def createRagStore_def uploadToRagStore_def poll_done generateExampleQuestions_def ai_begin_file)
  have 1: "documentName (snd (the (handleUploadAndStartChat prompt_remote (welcome_state True [File ''a.pdf''])))) = ''a.pdf''"
  proof -
    from ev obtain st' where h: "handleUploadAndStartChat prompt_remote (welcome_state True [File ''a.pdf'']) = Some (Returned, st')" by blast
    from document_label[OF h] have "documentName st' = ''a.pdf''" by (simp add: welcome_state_def)
    then show ?thesis by (simp add: h)
  qed
  have 2: "documentName (snd (the (handleUploadAndStartChat prompt_remote (welcome_state True [File ''a.pdf'', File ''b.md''])))) = ''a.pdf e b.md''"
  proof -
    from ev obtain st' where h: "handleUploadAndStartChat prompt_remote (welcome_state True [File ''a.pdf'', File ''b.md'']) = Some (Returned, st')" by blast
    from document_label[OF h] have "documentName st' = ''a.pdf e b.md''" by (simp add: welcome_state_def)
    then show ?thesis by (simp add: h)
  qed
  have 3: "documentName (snd (the (handleUploadAndStartChat prompt_remote (welcome_state True [File ''a.pdf'', File ''b.md'', File ''c.txt''])))) = ''3 documenti''"
  proof -
    from ev obtain st' where h: "handleUploadAndStartChat prompt_remote (welcome_state True [File ''a.pdf'', File ''b.md'', File ''c.txt'']) = Some (Returned, st')" by blast
    from document_label[OF h] have "documentName st' = ''3 documenti''"
      by (simp add: welcome_state_def show_nat.simps digit_char_def)
    then show ?thesis by (simp add: h)
  qed
  from 1 2 3 show ?thesis by blast
qed

text \<open>
  Claim C9, as stated, at a welcome screen with no credential selected and no file:
  the handler sets the inline credential message and throws, so the state changes.
\<close>

theorem zero_files_state_counterexample:
  "status (welcome_state False []) = Welcome \<and> files (welcome_state False []) = []
   \<and> handleUploadAndStartChat prompt_remote (welcome_state False []) =
       Some (Threw key_required,
             (welcome_state False [])\<lparr>apiKeyError := Some ''Per favore, seleziona o imposta la tua Chiave API Gemini.''\<rparr>)
   \<and> apiKeyError (welcome_state False []) = None"
  by (simp add: handleUploadAndStartChat_def welcome_state_def)

text \<open>
  Claim C9, amended. Confirming the upload with no file selected never changes the
  status and makes no call of the service. With a credential selected it is a no-op: the
  handler returns and the whole state is unchanged. With no credential selected the
  handler throws after setting the inline credential message, and changes nothing else.
\<close>

theorem zero_files_confirm:
  assumes "files st = []"
  shows "\<exists>out st'. handleUploadAndStartChat r st = Some (out, st')
           \<and> status st' = status st \<and> calls st' = calls st
           \<and> (isApiKeySelected st \<longrightarrow> out = Returned \<and> st' = st)
           \<and> (\<not> isApiKeySelected st \<longrightarrow> out = Threw key_required
                  \<and> st' = st\<lparr>apiKeyError := Some ''Per favore, seleziona o imposta la tua Chiave API Gemini.''\<rparr>)"
  using assms by (simp add: handleUploadAndStartChat_def)

theorem zero_files_confirm_witness:
  "handleUploadAndStartChat prompt_remote (welcome_state True []) = Some (Returned, welcome_state True [])"
proof -
  have f: "files (welcome_state True []) = []" by (simp add: welcome_state_def)
  have k: "isApiKeySelected (welcome_state True [])" by (simp add: welcome_state_def)
  from zero_files_confirm[OF f, of prompt_remote] k show ?thesis by auto
qed

lemma initialize_error_unrecognised:
  assumes "initialize k r = Inl err"
  shows "\<not> invalid_key_signature err"
proof -
  from assms have "err = JsError (''La Chiave API non '' @ [CHR 0xE8] @
                '' configurata. Forniscine una o imposta la variabile d'' @ [CHR 0x27] @
                ''ambiente API_KEY.'')"
    by (auto simp: initialize_def Let_def split: if_splits)
  moreover have "\<not> invalid_key_signature (JsError (''La Chiave API non '' @ [CHR 0xE8] @
                '' configurata. Forniscine una o imposta la variabile d'' @ [CHR 0x27] @
                ''ambiente API_KEY.''))"
    by code_simp
  ultimately show ?thesis by simp
qed

text \<open>
  Claim C1. The upload flow is started from the welcome screen, whose button is enabled
  only when a credential is selected. When \<^verbatim>\<open>handleUploadAndStartChat\<close>, started with a
  credential selected, fails with an error whose message in lower case contains
  \<open>"api key not valid"\<close> or \<open>"requested entity was not found"\<close>, the status is Welcome, the
  credential is marked unselected and the inline message is set; when it fails with any
  other error the status is Error (and the credential stays selected).
\<close>

theorem upload_failure_routing:
  assumes "handleUploadAndStartChat r st = Some (Threw err, st')" and "isApiKeySelected st"
  shows "if invalid_key_signature err
         then status st' = Welcome \<and> \<not> isApiKeySelected st'
              \<and> apiKeyError st' = Some (''La chiave API fornita non '' @ [CHR 0xE8] @
                    '' valida. Selezionane una diversa o impostane una corretta e riprova.'')
         else status st' = Error \<and> isApiKeySelected st'"
proof (cases "initialize None r")
  case (Inl e)
  with assms have e: "err = e"
    and s: "st' = handleError ''Inizializzazione fallita. Assicurati che la tua chiave API sia valida.'' e
                    (st\<lparr>apiKeyError := None, calls := calls st @ [Initialize]\<rparr>)"
    by (auto simp: handleUploadAndStartChat_def Let_def split: if_splits)
  from initialize_error_unrecognised[OF Inl] e have "\<not> invalid_key_signature err" by simp
  with s assms(2) show ?thesis by (simp add: handleError_def)
next
  case (Inr c)
  then have c: "c = True" by (auto simp: initialize_def Let_def split: if_splits)
  define st2 where "st2 = st\<lparr>apiKeyError := None, calls := calls st @ [Initialize], ai := True, status := Uploading,
                              uploadProgress := Some \<lparr>current = 0, total = length (files st) + 2,
                                  message = Some (''Creazione dell'' @ [CHR 0x27] @ ''indice del documento...''),
                                  fileName = None\<rparr>\<rparr>"
  from assms Inr c obtain st3 where t: "upload_try r (files st) st2 = Some (Some err, st3)"
    and s: "st' = (if invalid_key_signature err then
                                     st3\<lparr>apiKeyError := Some (''La chiave API fornita non '' @ [CHR 0xE8] @
                                            '' valida. Selezionane una diversa o impostane una corretta e riprova.''),
                                         isApiKeySelected := False,
                                         status := Welcome\<rparr>
                                   else handleError ''Impossibile avviare la sessione di chat'' err st3)\<lparr>uploadProgress := None\<rparr>"
    by (auto simp: handleUploadAndStartChat_def Let_def st2_def split: if_splits option.splits prod.splits)
  from upload_try_failure_frame[OF t] obtain p c where "st3 = st2\<lparr>uploadProgress := p, calls := c\<rparr>" by blast
  then have "isApiKeySelected st3" using assms(2) by (simp add: st2_def)
  with s show ?thesis by (simp add: handleError_def)
qed

theorem upload_failure_routing_witness:
  "status (snd (the (handleUploadAndStartChat
      (failing_remote (JsError ''API key not valid. Please pass a valid API key.''))
      (welcome_state True [File ''a.pdf''])))) = Welcome
   \<and> \<not> isApiKeySelected (snd (the (handleUploadAndStartChat
      (failing_remote (JsError ''API key not valid. Please pass a valid API key.''))
      (welcome_state True [File ''a.pdf'']))))
   \<and> status (snd (the (handleUploadAndStartChat
      (failing_remote (JsError ''Quota exceeded''))
      (welcome_state True [File ''a.pdf''])))) = Error
   \<and> status (snd (the (handleUploadAndStartChat
      (prompt_remote\<lparr>env_API_KEY := None\<rparr>)
      (welcome_state True [File ''a.pdf''])))) = Error"
proof -
  let ?st = "welcome_state True [File ''a.pdf'']"
  have k: "isApiKeySelected ?st" by (simp add: welcome_state_def)
  have run: "\<exists>st'. handleUploadAndStartChat (failing_remote e) ?st = Some (Threw e, st')" for e
    by (simp add: handleUploadAndStartChat_def welcome_state_def failing_remote_def prompt_remote_def
          initialize_def Let_def upload_try_def createRagStore_def)
  have run0: "\<exists>e st'. handleUploadAndStartChat (prompt_remote\<lparr>env_API_KEY := None\<rparr>) ?st = Some (Threw e, st')
                \<and> initialize None (prompt_remote\<lparr>env_API_KEY := None\<rparr>) = Inl e"
    by (simp add: handleUploadAndStartChat_def welcome_state_def prompt_remote_def initialize_def Let_def)
  have s1: "invalid_key_signature (JsError ''API key not valid. Please pass a valid API key.'')" by code_simp
  have s2: "\<not> invalid_key_signature (JsError ''Quota exceeded'')" by code_simp
  from run obtain st1 where h1: "handleUploadAndStartChat
      (failing_remote (JsError ''API key not valid. Please pass a valid API key.'')) ?st =
      Some (Threw (JsError ''API key not valid. Please pass a valid API key.''), st1)" by blast
  from run obtain st2 where h2: "handleUploadAndStartChat (failing_remote (JsError ''Quota exceeded'')) ?st =
      Some (Threw (JsError ''Quota exceeded''), st2)" by blast
  from run0 obtain e0 st0 where h0: "handleUploadAndStartChat (prompt_remote\<lparr>env_API_KEY := None\<rparr>) ?st =
      Some (Threw e0, st0)" and i0: "initialize None (prompt_remote\<lparr>env_API_KEY := None\<rparr>) = Inl e0" by blast
  from upload_failure_routing[OF h1 k] s1 have "status st1 = Welcome \<and> \<not> isApiKeySelected st1" by simp
  moreover from upload_failure_routing[OF h2 k] s2 have "status st2 = Error" by simp
  moreover from upload_failure_routing[OF h0 k] initialize_error_unrecognised[OF i0] have "status st0 = Error" by simp
  ultimately show ?thesis by (simp add: h1 h2 h0)
qed

text \<open>
  Claim C2. With an active store handle, \<^verbatim>\<open>handleSendMessage\<close> first appends the user
  turn and sets the loading flag: while the one query to the store is awaited the
  history ends with the user turn and the flag is set. When the query succeeds the model
  turn with the answer's text and grounding chunks follows and the status is unchanged;
  when it fails the fixed apology turn follows and the status is Error. The loading flag
  is cleared at the end in both cases.
\<close>

theorem send_message_turns:
  assumes "activeRagStoreName st = Some store" and "store \<noteq> []"
  shows "chatHistory (fst (handleSendMessage r msg st)) =
           chatHistory st @ [\<lparr>role = User, parts = [msg], groundingChunks = None\<rparr>]
       \<and> isQueryLoading (fst (handleSendMessage r msg st))
       \<and> status (fst (handleSendMessage r msg st)) = status st
       \<and> calls (fst (handleSendMessage r msg st)) = calls st @ [FileSearch store msg]
       \<and> calls (snd (handleSendMessage r msg st)) = calls st @ [FileSearch store msg]
       \<and> (\<forall>result. fileSearch (ai st) r = Inr result \<longrightarrow>
             chatHistory (snd (handleSendMessage r msg st)) =
               chatHistory st @ [\<lparr>role = User, parts = [msg], groundingChunks = None\<rparr>,
                                 \<lparr>role = Model, parts = [result_text result],
                                  groundingChunks = Some (result_groundingChunks result)\<rparr>]
             \<and> status (snd (handleSendMessage r msg st)) = status st
             \<and> \<not> isQueryLoading (snd (handleSendMessage r msg st)))
       \<and> (\<forall>err. fileSearch (ai st) r = Inl err \<longrightarrow>
             chatHistory (snd (handleSendMessage r msg st)) =
               chatHistory st @ [\<lparr>role = User, parts = [msg], groundingChunks = None\<rparr>,
                                 \<lparr>role = Model, parts = [''Spiacente, ho riscontrato un errore. Riprova.''],
                                  groundingChunks = None\<rparr>]
             \<and> status (snd (handleSendMessage r msg st)) = Error
             \<and> \<not> isQueryLoading (snd (handleSendMessage r msg st)))"
proof -
  have c: "calls (snd (handleSendMessage r msg st)) = calls st @ [FileSearch store msg]"
    using assms by (simp add: handleSendMessage_def handleError_def Let_def split: sum.splits)
  from assms c show ?thesis
    by (simp add: handleSendMessage_def handleError_def Let_def)
qed

theorem send_message_turns_witness:
  "chatHistory (fst (handleSendMessage prompt_remote ''hello'' chatting_state)) =
     [\<lparr>role = User, parts = [''hello''], groundingChunks = None\<rparr>]
   \<and> isQueryLoading (fst (handleSendMessage prompt_remote ''hello'' chatting_state))
   \<and> calls (fst (handleSendMessage prompt_remote ''hello'' chatting_state)) = [FileSearch ''fileSearchStores/s1'' ''hello'']
   \<and> chatHistory (snd (handleSendMessage prompt_remote ''hello'' chatting_state)) =
     [\<lparr>role = User, parts = [''hello''], groundingChunks = None\<rparr>,
      \<lparr>role = Model, parts = [''answer''], groundingChunks = Some []\<rparr>]
   \<and> status (snd (handleSendMessage prompt_remote ''hello'' chatting_state)) = Chatting
   \<and> \<not> isQueryLoading (snd (handleSendMessage prompt_remote ''hello'' chatting_state))
   \<and> chatHistory (snd (handleSendMessage (prompt_remote\<lparr>search_response := Inl (JsError ''503'')\<rparr>) ''hello'' chatting_state)) =
     [\<lparr>role = User, parts = [''hello''], groundingChunks = None\<rparr>,
      \<lparr>role = Model, parts = [''Spiacente, ho riscontrato un errore. Riprova.''], groundingChunks = None\<rparr>]
   \<and> status (snd (handleSendMessage (prompt_remote\<lparr>search_response := Inl (JsError ''503'')\<rparr>) ''hello'' chatting_state)) = Error
   \<and> \<not> isQueryLoading (snd (handleSendMessage (prompt_remote\<lparr>search_response := Inl (JsError ''503'')\<rparr>) ''hello'' chatting_state))"
proof -
  have a: "activeRagStoreName chatting_state = Some ''fileSearchStores/s1''" and b: "''fileSearchStores/s1'' \<noteq> []"
    by (simp_all add: chatting_state_def)
  have ok: "fileSearch (ai chatting_state) prompt_remote = Inr \<lparr>result_text = ''answer'', result_groundingChunks = []\<rparr>"
    by (simp add: fileSearch_def chatting_state_def welcome_state_def prompt_remote_def)
  have ko: "fileSearch (ai chatting_state) (prompt_remote\<lparr>search_response := Inl (JsError ''503'')\<rparr>) = Inl (JsError ''503'')"
    by (simp add: fileSearch_def chatting_state_def welcome_state_def prompt_remote_def)
  have h: "chatHistory chatting_state = [] \<and> status chatting_state = Chatting \<and> calls chatting_state = []"
    by (simp add: chatting_state_def welcome_state_def)
  from send_message_turns[OF a b, where msg = "''hello''" and r = prompt_remote] ok h
    send_message_turns[OF a b, where msg = "''hello''" and r = "prompt_remote\<lparr>search_response := Inl (JsError ''503'')\<rparr>"] ko
  show ?thesis by simp
qed

section \<open>Properties of the polling loop\<close>

lemma poll_reaches_done:
  "done_flag op \<noteq> Some True \<Longrightarrow> \<forall>j<n. pending (ops (k + j)) \<Longrightarrow> reports_done (ops (k + n))
   \<Longrightarrow> poll ops k slept op = Some (Inr (slept + 3000 * Suc n))"
proof (induction n arbitrary: k slept op)
  case 0
  then obtain op' where "ops k = Inr op'" "done_flag op' = Some True"
    by (auto simp: reports_done_def split: sum.splits)
  with 0 show ?case by (simp add: poll_pending poll_done)
next
  case (Suc n)
  from Suc.prems(2) have "pending (ops (k + 0))" by blast
  then obtain op' where o: "ops k = Inr op'" "done_flag op' \<noteq> Some True"
    by (auto simp: pending_def split: sum.splits)
  have "\<forall>j<n. pending (ops (Suc k + j))" using Suc.prems(2) by auto
  moreover have "reports_done (ops (Suc k + n))" using Suc.prems(3) by simp
  ultimately have "poll ops (Suc k) (slept + 3000) op' = Some (Inr (slept + 3000 + 3000 * Suc n))"
    using Suc.IH[OF o(2)] by blast
  with Suc.prems(1) o show ?case by (simp add: poll_pending)
qed

lemma poll_reaches_throw:
  "done_flag op \<noteq> Some True \<Longrightarrow> \<forall>j<n. pending (ops (k + j)) \<Longrightarrow> ops (k + n) = Inl e
   \<Longrightarrow> poll ops k slept op = Some (Inl e)"
proof (induction n arbitrary: k slept op)
  case 0
  then show ?case by (simp add: poll_pending)
next
  case (Suc n)
  from Suc.prems(2) have "pending (ops (k + 0))" by blast
  then obtain op' where o: "ops k = Inr op'" "done_flag op' \<noteq> Some True"
    by (auto simp: pending_def split: sum.splits)
  have "\<forall>j<n. pending (ops (Suc k + j))" using Suc.prems(2) by auto
  moreover have "ops (Suc k + n) = Inl e" using Suc.prems(3) by simp
  ultimately have "poll ops (Suc k) (slept + 3000) op' = Some (Inl e)"
    using Suc.IH[OF o(2)] by blast
  with Suc.prems(1) o show ?case by (simp add: poll_pending)
qed

lemma poll_returns_only_after_change:
  assumes a: "poll ops k slept op = Some y"
  shows "done_flag op = Some True \<or> (\<exists>j. \<not> pending (ops (k + j)))"
proof (rule poll.raw_induct[where P = "\<lambda>ops k slept op y. done_flag op = Some True \<or> (\<exists>j. \<not> pending (ops (k + j)))", OF _ a])
  fix f :: "(nat \<Rightarrow> js_thrown + Operation) \<Rightarrow> nat \<Rightarrow> nat \<Rightarrow> Operation \<Rightarrow> (js_thrown + nat) option"
    and ops k slept op y
  assume IH: "\<And>ops' k' slept' op' y'. f ops' k' slept' op' = Some y' \<Longrightarrow>
                 done_flag op' = Some True \<or> (\<exists>j. \<not> pending (ops' (k' + j)))"
    and eq: "(if done_flag op = Some True then Some (Inr slept)
              else case ops k of Inl e \<Rightarrow> Some (Inl e)
                   | Inr op' \<Rightarrow> f ops (Suc k) (slept + 3000) op') = Some y"
  show "done_flag op = Some True \<or> (\<exists>j. \<not> pending (ops (k + j)))"
  proof (cases "done_flag op = Some True")
    case True
    then show ?thesis by simp
  next
    case False
    show ?thesis
    proof (cases "ops k")
      case (Inl e)
      then have "\<not> pending (ops (k + 0))" by (simp add: pending_def)
      then show ?thesis by blast
    next
      case (Inr op')
      with False eq have "f ops (Suc k) (slept + 3000) op' = Some y" by simp
      from IH[OF this] have "done_flag op' = Some True \<or> (\<exists>j. \<not> pending (ops (Suc k + j)))" .
      then show ?thesis
      proof
        assume "done_flag op' = Some True"
        with Inr have "\<not> pending (ops (k + 0))" by (simp add: pending_def)
        then show ?thesis by blast
      next
        assume "\<exists>j. \<not> pending (ops (Suc k + j))"
        then obtain j where "\<not> pending (ops (k + Suc j))" by auto
        then show ?thesis by blast
      qed
    qed
  qed
qed

lemma upload_never_done:
  assumes "\<forall>k. pending (ops k)"
  shows "uploadToRagStore True ops = None"
proof -
  from assms have "pending (ops 0)" by blast
  then obtain op where o: "ops 0 = Inr op" "done_flag op \<noteq> Some True"
    by (auto simp: pending_def split: sum.splits)
  have "poll ops 1 0 op = None"
  proof (cases "poll ops 1 0 op")
    case (Some y)
    from poll_returns_only_after_change[OF this] o assms show ?thesis by blast
  qed simp
  with o show ?thesis by (simp add: uploadToRagStore_def)
qed

lemma upload_done_at:
  assumes "reports_done (ops n)" and "\<forall>k<n. pending (ops k)"
  shows "uploadToRagStore True ops = Some (Inr (3000 * n))"
proof (cases n)
  case 0
  with assms(1) show ?thesis
    by (auto simp: uploadToRagStore_def reports_done_def poll_done split: sum.splits)
next
  case (Suc m)
  with assms(2) have "pending (ops 0)" by blast
  then obtain op where o: "ops 0 = Inr op" "done_flag op \<noteq> Some True"
    by (auto simp: pending_def split: sum.splits)
  have "\<forall>j<m. pending (ops (1 + j))" using assms(2) Suc by auto
  moreover have "reports_done (ops (1 + m))" using assms(1) Suc by simp
  ultimately have "poll ops 1 0 op = Some (Inr (0 + 3000 * Suc m))"
    using poll_reaches_done[OF o(2)] by blast
  with o Suc show ?thesis by (simp add: uploadToRagStore_def)
qed

lemma upload_throws_at:
  assumes "ops n = Inl e" and "\<forall>k<n. pending (ops k)"
  shows "uploadToRagStore True ops = Some (Inl e)"
proof (cases n)
  case 0
  with assms(1) show ?thesis by (simp add: uploadToRagStore_def)
next
  case (Suc m)
  with assms(2) have "pending (ops 0)" by blast
  then obtain op where o: "ops 0 = Inr op" "done_flag op \<noteq> Some True"
    by (auto simp: pending_def split: sum.splits)
  have "\<forall>j<m. pending (ops (1 + j))" using assms(2) Suc by auto
  moreover have "ops (1 + m) = Inl e" using assms(1) Suc by simp
  ultimately have "poll ops 1 0 op = Some (Inl e)"
    using poll_reaches_throw[OF o(2)] by blast
  with o Suc show ?thesis by (simp add: uploadToRagStore_def)
qed

lemma first_change:
  fixes m :: nat
  assumes "\<not> pending (ops m)"
  shows "\<exists>n. \<not> pending (ops n) \<and> (\<forall>k<n. pending (ops k))"
proof -
  let ?n = "LEAST n. \<not> pending (ops n)"
  have "\<not> pending (ops ?n)" using LeastI[of "\<lambda>n. \<not> pending (ops n)" m] assms by simp
  moreover have "\<forall>k<?n. pending (ops k)" using not_less_Least[of _ "\<lambda>n. \<not> pending (ops n)"] by blast
  ultimately show ?thesis by blast
qed

lemma not_pending_cases: "\<not> pending a \<Longrightarrow> reports_done a \<or> (\<exists>e. a = Inl e)"
  by (auto simp: pending_def reports_done_def split: sum.splits)

lemma upload_returns_iff:
  "(uploadToRagStore True ops = None \<longleftrightarrow> (\<forall>k. pending (ops k)))
   \<and> (\<forall>slept. uploadToRagStore True ops = Some (Inr slept) \<longleftrightarrow>
         (\<exists>n. reports_done (ops n) \<and> (\<forall>k<n. pending (ops k)) \<and> slept = 3000 * n))"
proof (cases "\<forall>k. pending (ops k)")
  case True
  have nd: "\<not> reports_done (ops n)" for n
    using True by (auto simp: pending_def reports_done_def split: sum.splits)
  have u: "uploadToRagStore True ops = None" by (rule upload_never_done[OF True])
  have 1: "uploadToRagStore True ops = None \<longleftrightarrow> (\<forall>k. pending (ops k))"
    using u True by simp
  have 2: "uploadToRagStore True ops = Some (Inr slept) \<longleftrightarrow>
         (\<exists>n. reports_done (ops n) \<and> (\<forall>k<n. pending (ops k)) \<and> slept = 3000 * n)" for slept
    using u nd by simp
  from 1 2 show ?thesis by blast
next
  case False
  then obtain m where "\<not> pending (ops m)" by blast
  from first_change[of ops m, OF this] obtain n where n: "\<not> pending (ops n)" "\<forall>k<n. pending (ops k)" by blast
  have uniq: "n' = n" if "reports_done (ops n')" "\<forall>k<n'. pending (ops k)" for n'
  proof -
    have "\<not> pending (ops n')" using that(1) by (auto simp: pending_def reports_done_def split: sum.splits)
    with n that(2) show ?thesis by (meson nat_neq_iff)
  qed
  from not_pending_cases[OF n(1)] show ?thesis
  proof
    assume d: "reports_done (ops n)"
    have u: "uploadToRagStore True ops = Some (Inr (3000 * n))" by (rule upload_done_at[OF d n(2)])
    have 1: "uploadToRagStore True ops = None \<longleftrightarrow> (\<forall>k. pending (ops k))"
      using u False by simp
    have 2: "uploadToRagStore True ops = Some (Inr slept) \<longleftrightarrow>
         (\<exists>n. reports_done (ops n) \<and> (\<forall>k<n. pending (ops k)) \<and> slept = 3000 * n)" for slept
    proof
      assume "uploadToRagStore True ops = Some (Inr slept)"
      with u have "slept = 3000 * n" by simp
      with d n(2) show "\<exists>n. reports_done (ops n) \<and> (\<forall>k<n. pending (ops k)) \<and> slept = 3000 * n" by blast
    next
      assume "\<exists>n. reports_done (ops n) \<and> (\<forall>k<n. pending (ops k)) \<and> slept = 3000 * n"
      then obtain n' where "reports_done (ops n')" "\<forall>k<n'. pending (ops k)" "slept = 3000 * n'" by blast
      with uniq[of n'] have "slept = 3000 * n" by simp
      with u show "uploadToRagStore True ops = Some (Inr slept)" by simp
    qed
    from 1 2 show ?thesis by blast
  next
    assume "\<exists>e. ops n = Inl e"
    then obtain e where e: "ops n = Inl e" by blast
    have nd: "\<not> reports_done (ops n)" using e by (simp add: reports_done_def)
    have u: "uploadToRagStore True ops = Some (Inl e)" by (rule upload_throws_at[OF e n(2)])
    have 1: "uploadToRagStore True ops = None \<longleftrightarrow> (\<forall>k. pending (ops k))"
      using u False by simp
    have 2: "uploadToRagStore True ops = Some (Inr slept) \<longleftrightarrow>
         (\<exists>n. reports_done (ops n) \<and> (\<forall>k<n. pending (ops k)) \<and> slept = 3000 * n)" for slept
    proof
      assume "uploadToRagStore True ops = Some (Inr slept)"
      with u show "\<exists>n. reports_done (ops n) \<and> (\<forall>k<n. pending (ops k)) \<and> slept = 3000 * n" by simp
    next
      assume "\<exists>n. reports_done (ops n) \<and> (\<forall>k<n. pending (ops k)) \<and> slept = 3000 * n"
      then obtain n' where n': "reports_done (ops n')" "\<forall>k<n'. pending (ops k)" by blast
      with uniq[of n'] nd show "uploadToRagStore True ops = Some (Inr slept)" by simp
    qed
    from 1 2 show ?thesis by blast
  qed
qed

text \<open>
  Claim C6. With the client initialised, \<^verbatim>\<open>uploadToRagStore\<close> never returns exactly when
  every answer about the operation, that of the upload call and those of the polls, is an
  operation not yet done; and it returns normally exactly when some answer carries the
  done flag and every answer before it is an operation not yet done. It then has slept
  3000 ms for each poll made, however many they are: nothing bounds their number. (A
  request that throws ends the function with that error; it is neither of the two cases.)
\<close>

theorem uploadToRagStore_polling:
  "(uploadToRagStore True ops = None \<longleftrightarrow> (\<forall>k. pending (ops k)))
   \<and> (\<forall>slept. uploadToRagStore True ops = Some (Inr slept) \<longleftrightarrow>
         (\<exists>n. reports_done (ops n) \<and> (\<forall>k<n. pending (ops k)) \<and> slept = 3000 * n))
   \<and> (\<forall>n. uploadToRagStore True (done_after n) = Some (Inr (3000 * n)))"
proof -
  have "uploadToRagStore True (done_after n) = Some (Inr (3000 * n))" for n
    by (rule upload_done_at) (simp_all add: done_after_def reports_done_def pending_def)
  with upload_returns_iff[of ops] show ?thesis by blast
qed

theorem uploadToRagStore_polling_witness:
  "uploadToRagStore True (done_after 2) = Some (Inr 6000)
   \<and> uploadToRagStore True (\<lambda>k. Inr \<lparr>done_flag = Some False\<rparr>) = None"
proof -
  have "reports_done (done_after 2 2) \<and> (\<forall>k<2. pending (done_after 2 k)) \<and> (6000::nat) = 3000 * 2"
    by (simp add: reports_done_def pending_def done_after_def)
  then have 1: "uploadToRagStore True (done_after 2) = Some (Inr 6000)"
    using uploadToRagStore_polling[of "done_after 2"] by blast
  have "\<forall>k. pending ((\<lambda>k. Inr \<lparr>done_flag = Some False\<rparr>) k)" by (simp add: pending_def)
  then have 2: "uploadToRagStore True (\<lambda>k. Inr \<lparr>done_flag = Some False\<rparr>) = None"
    using uploadToRagStore_polling[of "\<lambda>k. Inr \<lparr>done_flag = Some False\<rparr>"] by blast
  from 1 2 show ?thesis by blast
qed

section \<open>Properties of the example questions\<close>

lemma filter_strings_append: "filter_strings (xs @ ys) = filter_strings xs @ filter_strings ys"
  by (induction xs rule: filter_strings.induct) simp_all

lemma filter_strings_map_JStr: "filter_strings (map JStr ss) = ss"
  by (induction ss) simp_all

lemma flatMap_questions_grouped:
  "\<forall>item\<in>set items. has_questions_array item \<Longrightarrow>
   flatMap_questions items = Some (concat (map questions_array items))"
proof (induction items)
  case Nil
  then show ?case by simp
next
  case (Cons item items)
  then have h: "has_questions_array item" and rest: "flatMap_questions items = Some (concat (map questions_array items))"
    by simp_all
  from h obtain ps qs where "item = JObj ps" "map_of ps ''questions'' = Some (JArr qs)"
    by (cases item) (auto split: option.splits json.splits)
  with rest show ?case by simp
qed

text \<open>
  Claim C7, as stated, at an array that holds a grouped item and then a string: it is
  neither a flat array of strings nor an array of grouped items, and the questions of the
  grouped item are returned, with nothing logged.
\<close>

theorem example_questions_other_shape_counterexample:
  "generateExampleQuestions True (answering (JArr [grouped_1, JStr ''d9''])) = Inr ([''d1'', ''d2''], Silent)
   \<and> \<not> has_questions_array (JStr ''d9'')
   \<and> \<not> is_JStr grouped_1"
  by (simp add: generateExampleQuestions_def answering_def grouped_1_def)

text \<open>
  Claim C7, amended. \<^verbatim>\<open>generateExampleQuestions\<close> tells the shape of a parsed array by
  its first element. A flat array of strings is returned as it is; an array whose first
  element is a string gives its string elements; an array of grouped items gives the
  strings of the concatenation of their \<^verbatim>\<open>questions\<close> arrays, in order. A parsed value
  that is not an array, and an array whose first element is neither a string nor a
  grouped item, give the empty list with a warning logged.
\<close>

theorem example_questions_shapes:
  assumes "questions_response r = Inr parsed"
  shows "(\<forall>ss. parsed = JArr (map JStr ss) \<longrightarrow> generateExampleQuestions True r = Inr (ss, Silent))
       \<and> (\<forall>items. parsed = JArr items \<and> (\<forall>item\<in>set items. has_questions_array item) \<longrightarrow>
             generateExampleQuestions True r = Inr (filter_strings (concat (map questions_array items)), Silent))
       \<and> (\<forall>s items. parsed = JArr (JStr s # items) \<longrightarrow>
             generateExampleQuestions True r = Inr (s # filter_strings items, Silent))
       \<and> ((\<forall>items. parsed \<noteq> JArr items) \<or> (\<exists>x items. parsed = JArr (x # items) \<and> \<not> has_questions_array x \<and> \<not> is_JStr x)
             \<longrightarrow> generateExampleQuestions True r = Inr ([], Warned))"
proof (intro conjI allI impI)
  fix ss assume p: "parsed = JArr (map JStr ss)"
  show "generateExampleQuestions True r = Inr (ss, Silent)"
  proof (cases ss)
    case Nil
    with p assms show ?thesis by (simp add: generateExampleQuestions_def)
  next
    case (Cons s ss')
    with p assms show ?thesis by (simp add: generateExampleQuestions_def filter_strings_map_JStr)
  qed
next
  fix items assume p: "parsed = JArr items \<and> (\<forall>item\<in>set items. has_questions_array item)"
  show "generateExampleQuestions True r = Inr (filter_strings (concat (map questions_array items)), Silent)"
  proof (cases items)
    case Nil
    with p assms show ?thesis by (simp add: generateExampleQuestions_def)
  next
    case (Cons x xs)
    with p have "has_questions_array x" by simp
    moreover from p have "flatMap_questions items = Some (concat (map questions_array items))"
      using flatMap_questions_grouped by blast
    ultimately show ?thesis using p assms Cons by (simp add: generateExampleQuestions_def)
  qed
next
  fix s items assume "parsed = JArr (JStr s # items)"
  with assms show "generateExampleQuestions True r = Inr (s # filter_strings items, Silent)"
    by (simp add: generateExampleQuestions_def)
next
  assume "(\<forall>items. parsed \<noteq> JArr items) \<or> (\<exists>x items. parsed = JArr (x # items) \<and> \<not> has_questions_array x \<and> \<not> is_JStr x)"
  then show "generateExampleQuestions True r = Inr ([], Warned)"
  proof
    assume "\<forall>items. parsed \<noteq> JArr items"
    then have "questions_of_parsed parsed = ([], Warned)" by (cases parsed) simp_all
    with assms show ?thesis by (simp add: generateExampleQuestions_def)
  next
    assume "\<exists>x items. parsed = JArr (x # items) \<and> \<not> has_questions_array x \<and> \<not> is_JStr x"
    with assms show ?thesis by (auto simp: generateExampleQuestions_def)
  qed
qed

theorem example_questions_shapes_witness:
  "generateExampleQuestions True (answering (JArr [JStr ''d1'', JStr ''d2''])) = Inr ([''d1'', ''d2''], Silent)
   \<and> generateExampleQuestions True (answering (JArr [grouped_1, grouped_2])) = Inr ([''d1'', ''d2'', ''d3''], Silent)
   \<and> generateExampleQuestions True (answering (JObj [(''questions'', JArr [JStr ''d1''])])) = Inr ([], Warned)
   \<and> generateExampleQuestions True (answering (JArr [JNum 1, JStr ''d1''])) = Inr ([], Warned)"
proof -
  have q: "questions_response (answering p) = Inr p" for p by (simp add: answering_def)
  have 1: "generateExampleQuestions True (answering (JArr [JStr ''d1'', JStr ''d2''])) = Inr ([''d1'', ''d2''], Silent)"
    using example_questions_shapes[OF q, of "JArr [JStr ''d1'', JStr ''d2'']"] by simp
  have "\<forall>item\<in>set [grouped_1, grouped_2]. has_questions_array item"
    by (simp add: grouped_1_def grouped_2_def)
  then have 2: "generateExampleQuestions True (answering (JArr [grouped_1, grouped_2])) = Inr ([''d1'', ''d2'', ''d3''], Silent)"
    using example_questions_shapes[OF q, of "JArr [grouped_1, grouped_2]"]
    by (simp add: grouped_1_def grouped_2_def)
  have 3: "generateExampleQuestions True (answering (JObj [(''questions'', JArr [JStr ''d1''])])) = Inr ([], Warned)"
    using example_questions_shapes[OF q, of "JObj [(''questions'', JArr [JStr ''d1''])]"] by simp
  have 4: "generateExampleQuestions True (answering (JArr [JNum 1, JStr ''d1''])) = Inr ([], Warned)"
    using example_questions_shapes[OF q, of "JArr [JNum 1, JStr ''d1'']"] by simp
  from 1 2 3 4 show ?thesis by blast
qed

section \<open>Properties of the renderer\<close>

lemma delimited_head: "delimited d (c # cs) = Some m \<Longrightarrow> d \<noteq> [] \<Longrightarrow> c = hd d"
  by (cases d) (auto simp: delimited_def split: if_splits)

lemma match_inline_head: "match_inline k (c # cs) = Some m \<Longrightarrow> is_marker c"
  by (cases k) (auto simp: is_marker_def split: option.splits if_splits dest!: delimited_head)

lemma replace_inline_plain: "\<forall>c\<in>set s. \<not> is_marker c \<Longrightarrow> replace_inline k s = s"
proof (induction s)
  case Nil
  then show ?case by simp
next
  case (Cons c cs)
  then have "match_inline k (c # cs) = None"
    using match_inline_head[of k c cs] by (cases "match_inline k (c # cs)") auto
  with Cons show ?case by simp
qed

lemma inline_markup_plain: "\<forall>c\<in>set s. \<not> is_marker c \<Longrightarrow> inline_markup s = s"
  by (simp add: inline_markup_def replace_inline_plain)

lemma trim_empty_iff: "trim s = [] \<longleftrightarrow> (\<forall>c\<in>set s. is_ws c)"
proof
  assume "trim s = []"
  then have a: "\<forall>c\<in>set (dropWhile is_ws s). is_ws c"
    by (simp add: trim_def dropWhile_eq_Nil_conv)
  have "dropWhile is_ws s = []"
  proof (rule ccontr)
    assume n: "dropWhile is_ws s \<noteq> []"
    then have "\<not> is_ws (hd (dropWhile is_ws s))" by (rule hd_dropWhile)
    moreover from n have "hd (dropWhile is_ws s) \<in> set (dropWhile is_ws s)" by simp
    ultimately show False using a by blast
  qed
  then show "\<forall>c\<in>set s. is_ws c" by (simp add: dropWhile_eq_Nil_conv)
next
  assume "\<forall>c\<in>set s. is_ws c"
  then have "dropWhile is_ws s = []" by (simp add: dropWhile_eq_Nil_conv)
  then show "trim s = []" by (simp only: trim_def rev.simps dropWhile.simps)
qed

lemma ws_not_marker: "is_ws c \<Longrightarrow> \<not> is_marker c"
  by (auto simp: is_ws_def is_marker_def)

lemma blank_line_step:
  assumes "trim l = []"
  shows "render_line \<lparr>html = h, listType = None, paraBuffer = []\<rparr> l = \<lparr>html = h, listType = None, paraBuffer = []\<rparr>"
proof -
  from assms have ws: "\<forall>c\<in>set l. is_ws c" by (simp add: trim_empty_iff)
  then have m: "inline_markup l = l" using ws_not_marker by (intro inline_markup_plain) blast
  from ws have d: "dropWhile is_ws l = []" by (simp add: dropWhile_eq_Nil_conv)
  have ol: "match_ol l = None" by (simp add: match_ol_def d)
  have ul: "match_ul l = None" by (simp add: match_ul_def d)
  show ?thesis
    by (simp add: render_line_def m ol ul assms flushList_def flushPara_def)
qed

lemma blank_lines_fold:
  "\<forall>l\<in>set ls. trim l = [] \<Longrightarrow>
   foldl render_line \<lparr>html = h, listType = None, paraBuffer = []\<rparr> ls = \<lparr>html = h, listType = None, paraBuffer = []\<rparr>"
  by (induction ls) (simp_all add: blank_line_step)

text \<open>
  Claim C10. For the empty string, and for every input all of whose lines are blank
  (empty or white space only), \<^verbatim>\<open>renderMarkdown\<close> returns the empty fragment: no
  paragraph element is written.
\<close>

theorem render_blank_input:
  assumes "text = [] \<or> (\<forall>l\<in>set (split_lines text). trim l = [])"
  shows "renderMarkdown text = []"
proof (cases "text = []")
  case True
  then show ?thesis by (simp add: renderMarkdown_def)
next
  case False
  with assms have "\<forall>l\<in>set (split_lines text). trim l = []" by simp
  then show ?thesis
    by (simp add: renderMarkdown_def blank_lines_fold flushPara_def flushList_def)
qed

theorem render_blank_input_witness:
  "renderMarkdown [] = [] \<and> renderMarkdown [CHR 0x0A, CHR '' '', CHR 0x09, CHR 0x0A, CHR 0x0A] = []"
proof -
  have "\<forall>l\<in>set (split_lines [CHR 0x0A, CHR '' '', CHR 0x09, CHR 0x0A, CHR 0x0A]). trim l = []"
    by (simp add: split_lines_def trim_def is_ws_def)
  then have "renderMarkdown [CHR 0x0A, CHR '' '', CHR 0x09, CHR 0x0A, CHR 0x0A] = []"
    using render_blank_input[of "[CHR 0x0A, CHR '' '', CHR 0x09, CHR 0x0A, CHR 0x0A]"] by blast
  moreover have "renderMarkdown [] = []" using render_blank_input[of "[]"] by simp
  ultimately show ?thesis by blast
qed

lemma plain_line_step:
  assumes "plain_line l"
  shows "render_line \<lparr>html = [], listType = None, paraBuffer = b\<rparr> l =
         \<lparr>html = [], listType = None, paraBuffer = b @ (if b \<noteq> [] then ''<br/>'' else []) @ l\<rparr>"
  using assms by (simp add: plain_line_def render_line_def flushList_def)

lemma plain_line_nonempty: "plain_line l \<Longrightarrow> l \<noteq> []"
  by (auto simp: plain_line_def trim_def)

lemma plain_lines_fold:
  "\<forall>l\<in>set ls. plain_line l \<Longrightarrow> b \<noteq> [] \<Longrightarrow>
   foldl render_line \<lparr>html = [], listType = None, paraBuffer = b\<rparr> ls =
   \<lparr>html = [], listType = None, paraBuffer = b @ concat (map (\<lambda>l. ''<br/>'' @ l) ls)\<rparr>"
proof (induction ls arbitrary: b)
  case Nil
  then show ?case by simp
next
  case (Cons l ls)
  then have "plain_line l" by simp
  from plain_line_step[OF this, of b] Cons.prems(2)
  have s: "render_line \<lparr>html = [], listType = None, paraBuffer = b\<rparr> l =
         \<lparr>html = [], listType = None, paraBuffer = b @ ''<br/>'' @ l\<rparr>" by simp
  have "b @ ''<br/>'' @ l \<noteq> []" using Cons.prems(2) by simp
  with Cons.IH[of "b @ ''<br/>'' @ l"] Cons.prems(1) s show ?case by simp
qed

lemma split_from_nonempty: "split_from cur s \<noteq> []"
  by (induction s arbitrary: cur) simp_all

lemma split_lines_nonempty: "split_lines s \<noteq> []"
  by (simp add: split_lines_def split_from_nonempty)

lemma split_from_br:
  "hd (split_from cur s) @ concat (map (\<lambda>l. ''<br/>'' @ l) (tl (split_from cur s))) = cur @ br_text s"
proof (induction s arbitrary: cur)
  case Nil
  then show ?case by (simp add: br_text_def)
next
  case (Cons c cs)
  show ?case
  proof (cases "c = CHR 0x0A")
    case True
    obtain l ls where sp: "split_from [] cs = l # ls"
      using split_from_nonempty[of "[]" cs] by (cases "split_from [] cs") auto
    with Cons.IH[of "[]"] have "l @ concat (map (\<lambda>l. ''<br/>'' @ l) ls) = br_text cs" by simp
    with True sp show ?thesis by (simp add: br_text_def)
  next
    case False
    with Cons.IH[of "cur @ [c]"] show ?thesis by (simp add: br_text_def)
  qed
qed

lemma split_lines_br:
  "hd (split_lines s) @ concat (map (\<lambda>l. ''<br/>'' @ l) (tl (split_lines s))) = br_text s"
  using split_from_br[of "[]" s] by (simp add: split_lines_def)

lemma split_from_final_line_feed: "split_from cur (s @ [CHR 0x0A]) = split_from cur s @ [[]]"
  by (induction s arbitrary: cur) simp_all

lemma empty_line_step:
  "render_line \<lparr>html = [], listType = None, paraBuffer = b\<rparr> [] =
   flushPara \<lparr>html = [], listType = None, paraBuffer = b\<rparr>"
proof -
  have m: "inline_markup [] = []" by (rule inline_markup_plain) simp
  show ?thesis by (simp add: render_line_def m match_ol_def match_ul_def trim_def flushList_def)
qed

text \<open>
  Claim C5, as stated, at the one-line input \<open>abc\<close> followed by a line feed: it holds no
  markdown token and no blank line, \<^verbatim>\<open>split('\n')\<close> gives the line \<open>abc\<close> and the empty
  string after the last line feed. The paragraph returned holds \<open>abc\<close> alone: the line
  feed is dropped, not replaced by \<^verbatim>\<open><br/>\<close>.
\<close>

theorem render_final_line_feed_counterexample:
  "renderMarkdown (''abc'' @ [CHR 0x0A]) = ''<p class='' @ [CHR 0x22] @ ''my-2'' @ [CHR 0x22] @ ''>abc</p>''
   \<and> renderMarkdown (''abc'' @ [CHR 0x0A]) \<noteq>
       ''<p class='' @ [CHR 0x22] @ ''my-2'' @ [CHR 0x22] @ ''>'' @ br_text (''abc'' @ [CHR 0x0A]) @ ''</p>''
   \<and> br_text (''abc'' @ [CHR 0x0A]) = ''abc<br/>''
   \<and> split_lines (''abc'' @ [CHR 0x0A]) = [''abc'', []]
   \<and> plain_line ''abc''"
proof -
  have 1: "renderMarkdown (''abc'' @ [CHR 0x0A]) = ''<p class='' @ [CHR 0x22] @ ''my-2'' @ [CHR 0x22] @ ''>abc</p>''"
    by code_simp
  have 2: "br_text (''abc'' @ [CHR 0x0A]) = ''abc<br/>''" by (simp add: br_text_def)
  have 3: "split_lines (''abc'' @ [CHR 0x0A]) = [''abc'', []]" by (simp add: split_lines_def)
  have 4: "plain_line ''abc''" by code_simp
  from 1 2 3 4 show ?thesis by simp
qed

text \<open>
  Claim C5, amended. The lines of an input are the strings that \<^verbatim>\<open>split('\n')\<close> gives,
  so an input that ends with a line feed has an empty last line. For every non-empty
  input all of whose lines hold no markdown token (no substitution finds a marker pair
  to replace, which is so in particular when none of \<open>*\<close>, \<open>_\<close> and the backquote
  occurs; neither list pattern matches) and are not blank, \<^verbatim>\<open>renderMarkdown\<close> returns
  exactly one paragraph element around the input, in which each line feed is replaced by
  \<^verbatim>\<open><br/>\<close> and nothing else is changed. When one line feed follows such an input, the
  paragraph returned is the same one: the final line feed is dropped.
\<close>

theorem render_plain_text:
  assumes "text \<noteq> []" and "\<forall>l\<in>set (split_lines text). plain_line l"
  shows "renderMarkdown text = ''<p class='' @ [CHR 0x22] @ ''my-2'' @ [CHR 0x22] @ ''>'' @ br_text text @ ''</p>''
       \<and> renderMarkdown (text @ [CHR 0x0A]) =
           ''<p class='' @ [CHR 0x22] @ ''my-2'' @ [CHR 0x22] @ ''>'' @ br_text text @ ''</p>''"
proof -
  obtain l ls where sp: "split_lines text = l # ls"
    using split_lines_nonempty[of "text"] by (cases "split_lines text") auto
  from assms(2) sp have pl: "plain_line l" and pls: "\<forall>l\<in>set ls. plain_line l" by simp_all
  from plain_line_nonempty[OF pl] have ne: "l \<noteq> []" .
  have "foldl render_line \<lparr>html = [], listType = None, paraBuffer = []\<rparr> (l # ls) =
        foldl render_line \<lparr>html = [], listType = None, paraBuffer = l\<rparr> ls"
    using plain_line_step[OF pl, of "[]"] by simp
  also have "\<dots> = \<lparr>html = [], listType = None, paraBuffer = l @ concat (map (\<lambda>l. ''<br/>'' @ l) ls)\<rparr>"
    by (rule plain_lines_fold[OF pls ne])
  also have "l @ concat (map (\<lambda>l. ''<br/>'' @ l) ls) = br_text text"
    using split_lines_br[of "text"] sp by simp
  finally have f: "foldl render_line \<lparr>html = [], listType = None, paraBuffer = []\<rparr> (split_lines text) =
      \<lparr>html = [], listType = None, paraBuffer = br_text text\<rparr>" using sp by simp
  have b: "br_text text \<noteq> []" using assms(1) by (cases "text") (auto simp: br_text_def)
  from f b assms(1)
  have 1: "renderMarkdown text = ''<p class='' @ [CHR 0x22] @ ''my-2'' @ [CHR 0x22] @ ''>'' @ br_text text @ ''</p>''"
    by (simp add: renderMarkdown_def flushPara_def flushList_def)
  have "split_lines (text @ [CHR 0x0A]) = split_lines text @ [[]]"
    by (simp add: split_lines_def split_from_final_line_feed)
  then have "foldl render_line \<lparr>html = [], listType = None, paraBuffer = []\<rparr> (split_lines (text @ [CHR 0x0A])) =
      flushPara \<lparr>html = [], listType = None, paraBuffer = br_text text\<rparr>"
    by (simp add: f empty_line_step)
  with b
  have 2: "renderMarkdown (text @ [CHR 0x0A]) =
           ''<p class='' @ [CHR 0x22] @ ''my-2'' @ [CHR 0x22] @ ''>'' @ br_text text @ ''</p>''"
    by (simp add: renderMarkdown_def flushPara_def flushList_def)
  from 1 2 show ?thesis by simp
qed

theorem render_plain_text_witness:
  "renderMarkdown (''Ciao, mondo.'' @ [CHR 0x0A] @ ''  Seconda riga: 2 + 2 = 4'') =
     ''<p class='' @ [CHR 0x22] @ ''my-2'' @ [CHR 0x22] @ ''>Ciao, mondo.<br/>  Seconda riga: 2 + 2 = 4</p>''
   \<and> renderMarkdown ((''Ciao, mondo.'' @ [CHR 0x0A] @ ''  Seconda riga: 2 + 2 = 4'') @ [CHR 0x0A]) =
     ''<p class='' @ [CHR 0x22] @ ''my-2'' @ [CHR 0x22] @ ''>Ciao, mondo.<br/>  Seconda riga: 2 + 2 = 4</p>''"
proof -
  let ?t = "''Ciao, mondo.'' @ [CHR 0x0A] @ ''  Seconda riga: 2 + 2 = 4''"
  have ne: "?t \<noteq> []" by simp
  have sp: "split_lines ?t = [''Ciao, mondo.'', ''  Seconda riga: 2 + 2 = 4'']"
    by (simp add: split_lines_def)
  have p1: "plain_line ''Ciao, mondo.''" by code_simp
  have p2: "plain_line ''  Seconda riga: 2 + 2 = 4''" by code_simp
  have "\<forall>l\<in>set (split_lines ?t). plain_line l" unfolding sp using p1 p2 by simp
  from render_plain_text[OF ne this] show ?thesis by (simp add: br_text_def)
qed

lemma html_flushPara: "html (flushPara st) = html st @ concat (map piece_html (para_pieces (paraBuffer st)))"
  by (simp add: flushPara_def para_pieces_def)

lemma html_flushList: "html (flushList st) = html st @ concat (map piece_html (close_pieces (listType st)))"
  by (simp add: flushList_def close_pieces_def split: option.splits)

lemma flush_fields [simp]:
  "listType (flushPara st) = listType st" "paraBuffer (flushPara st) = []"
  "listType (flushList st) = None" "paraBuffer (flushList st) = paraBuffer st"
  by (simp_all add: flushPara_def flushList_def split: option.splits)

lemma render_line_ol:
  assumes "match_ol (inline_markup rawLine) = Some item"
  shows "html (render_line st rawLine) =
           html st @ concat (map piece_html (para_pieces (paraBuffer st)
             @ (if listType st \<noteq> Some Ol then close_pieces (listType st) @ [ListOpen Ol] else []) @ [Item item]))"
    and "listType (render_line st rawLine) = Some Ol"
    and "paraBuffer (render_line st rawLine) = []"
  using assms by (simp_all add: render_line_def Let_def html_flushList html_flushPara)

lemma render_line_ul:
  assumes "match_ol (inline_markup rawLine) = None" and "match_ul (inline_markup rawLine) = Some item"
  shows "html (render_line st rawLine) =
           html st @ concat (map piece_html (para_pieces (paraBuffer st)
             @ (if listType st \<noteq> Some Ul then close_pieces (listType st) @ [ListOpen Ul] else []) @ [Item item]))"
    and "listType (render_line st rawLine) = Some Ul"
    and "paraBuffer (render_line st rawLine) = []"
  using assms by (simp_all add: render_line_def Let_def html_flushList html_flushPara)

lemma render_line_blank:
  assumes "match_ol (inline_markup rawLine) = None" and "match_ul (inline_markup rawLine) = None"
    and "trim (inline_markup rawLine) = []"
  shows "html (render_line st rawLine) =
           html st @ concat (map piece_html (close_pieces (listType st) @ para_pieces (paraBuffer st)))"
    and "listType (render_line st rawLine) = None"
    and "paraBuffer (render_line st rawLine) = []"
  using assms by (simp_all add: render_line_def Let_def html_flushList html_flushPara)

lemma render_line_text:
  assumes "match_ol (inline_markup rawLine) = None" and "match_ul (inline_markup rawLine) = None"
    and "trim (inline_markup rawLine) \<noteq> []"
  shows "html (render_line st rawLine) = html st @ concat (map piece_html (close_pieces (listType st)))"
    and "listType (render_line st rawLine) = None"
    and "paraBuffer (render_line st rawLine) =
           paraBuffer st @ (if paraBuffer st \<noteq> [] then ''<br/>'' else []) @ inline_markup rawLine"
  using assms by (simp_all add: render_line_def Let_def html_flushList html_flushPara)

lemma render_pieces:
  "html (flushList (flushPara (foldl render_line st ls))) =
   html st @ concat (map piece_html (pieces (listType st) (paraBuffer st) ls))"
proof (induction ls arbitrary: st)
  case Nil
  show ?case by (simp add: html_flushList html_flushPara)
next
  case (Cons rawLine ls)
  let ?line = "inline_markup rawLine"
  have step: "html (flushList (flushPara (foldl render_line st (rawLine # ls)))) =
      html (render_line st rawLine) @
      concat (map piece_html (pieces (listType (render_line st rawLine)) (paraBuffer (render_line st rawLine)) ls))"
    using Cons.IH[of "render_line st rawLine"] by simp
  show ?case
  proof (cases "match_ol ?line")
    case (Some item)
    show ?thesis unfolding step render_line_ol[OF Some] by (simp add: Some)
  next
    case None
    show ?thesis
    proof (cases "match_ul ?line")
      case (Some item)
      show ?thesis unfolding step render_line_ul[OF None Some] by (simp add: None Some)
    next
      case N2: None
      show ?thesis
      proof (cases "trim ?line = []")
        case True
        show ?thesis unfolding step render_line_blank[OF None N2 True] by (simp add: None N2 True)
      next
        case False
        show ?thesis unfolding step render_line_text[OF None N2 False] by (simp add: None N2 False)
      qed
    qed
  qed
qed

lemma pieces_one_open: "one_open cur (concat (map piece_tags (pieces cur b ls)))"
proof (induction ls arbitrary: cur b)
  case Nil
  show ?case by (cases cur) (simp_all add: para_pieces_def close_pieces_def)
next
  case (Cons rawLine ls)
  let ?line = "inline_markup rawLine"
  show ?case
  proof (cases "match_ol ?line")
    case (Some item)
    with Cons.IH[of "Some Ol" "[]"] show ?thesis
      by (cases cur) (auto simp: para_pieces_def close_pieces_def)
  next
    case None
    show ?thesis
    proof (cases "match_ul ?line")
      case (Some item)
      with None Cons.IH[of "Some Ul" "[]"] show ?thesis
        by (cases cur) (auto simp: para_pieces_def close_pieces_def)
    next
      case N2: None
      show ?thesis
      proof (cases "trim ?line = []")
        case True
        with None N2 Cons.IH[of None "[]"] show ?thesis
          by (cases cur) (auto simp: para_pieces_def close_pieces_def)
      next
        case False
        with None N2 Cons.IH[of None "b @ (if b \<noteq> [] then ''<br/>'' else []) @ ?line"] show ?thesis
          by (cases cur) (auto simp: para_pieces_def close_pieces_def)
      qed
    qed
  qed
qed

lemma one_open_nested: "one_open cur ts \<Longrightarrow> nested (case cur of None \<Rightarrow> [] | Some t \<Rightarrow> [t]) ts"
proof (induction ts arbitrary: cur)
  case Nil
  then show ?case by simp
next
  case (Cons a ts)
  show ?case
  proof (cases a)
    case (Opening t)
    with Cons.prems have "cur = None" "one_open (Some t) ts" by simp_all
    with Cons.IH[of "Some t"] Opening show ?thesis by simp
  next
    case (Closing t)
    with Cons.prems have "cur = Some t" "one_open None ts" by simp_all
    with Cons.IH[of None] Closing show ?thesis by simp
  qed
qed

lemma ok_no_lt: "CHR ''<'' \<notin> set s \<Longrightarrow> ok s"
  by (induction s) auto

lemma ok_append: "ok a \<Longrightarrow> ok b \<Longrightarrow> ok (a @ b)"
proof (induction a)
  case Nil
  then show ?case by simp
next
  case (Cons c a)
  then have t: "ok (a @ b)" by simp
  have "\<exists>p. template_tail p \<and> prefix p (a @ b)" if "c = CHR ''<''"
  proof -
    from Cons.prems(1) that obtain p where "template_tail p" "prefix p a" by auto
    then show ?thesis using prefix_prefix by blast
  qed
  with t show ?case by simp
qed

lemma ok_suffix: "ok (a @ b) \<Longrightarrow> ok b"
  by (induction a) auto

lemma prefix_before: "prefix p (u @ m # x) \<Longrightarrow> m \<notin> set p \<Longrightarrow> prefix p u"
proof (induction p arbitrary: u)
  case Nil
  then show ?case by simp
next
  case (Cons a p)
  show ?case
  proof (cases u)
    case Nil
    with Cons.prems show ?thesis by simp
  next
    case (Cons b u')
    with Cons.prems have "a = b" and "prefix p (u' @ m # x)" and "m \<notin> set p" by simp_all
    with Cons.IH[of u'] Cons show ?thesis by simp
  qed
qed

lemma set_tl_subset: "c \<in> set (tl xs) \<Longrightarrow> c \<in> set xs"
  by (cases xs) simp_all

lemma template_tail_chars: "template_tail p \<Longrightarrow> c \<in> set p \<Longrightarrow> template_char c"
proof -
  assume t: "template_tail p" and c: "c \<in> set p"
  from t obtain k where "p = tl (open_tag k) \<or> p = tl (close_tag k)"
    unfolding template_tail_def by (elim exE)
  then have "c \<in> set (open_tag k) \<or> c \<in> set (close_tag k)"
  proof
    assume "p = tl (open_tag k)"
    with c have "c \<in> set (open_tag k)" by (simp add: set_tl_subset)
    then show ?thesis by (rule disjI1)
  next
    assume "p = tl (close_tag k)"
    with c have "c \<in> set (close_tag k)" by (simp add: set_tl_subset)
    then show ?thesis by (rule disjI2)
  qed
  then show ?thesis unfolding template_char_def by (rule exI)
qed

lemma ok_prefix: "ok (a @ m # x) \<Longrightarrow> \<not> template_char m \<Longrightarrow> ok a"
proof (induction a)
  case Nil
  then show ?case by simp
next
  case (Cons c a)
  from Cons.prems have tailok: "ok (a @ m # x)" by simp
  have "\<exists>p. template_tail p \<and> prefix p a" if "c = CHR ''<''"
  proof -
    from Cons.prems(1) that obtain p where p: "template_tail p" "prefix p (a @ m # x)" by auto
    have "m \<notin> set p" using template_tail_chars[OF p(1)] Cons.prems(2) by blast
    from prefix_before[OF p(2) this] p(1) show ?thesis by blast
  qed
  with Cons.IH[OF tailok Cons.prems(2)] show ?case by simp
qed

lemma no_template_char:
  assumes "c \<notin> set (open_tag Strong)" "c \<notin> set (close_tag Strong)" "c \<notin> set (open_tag Em)"
    "c \<notin> set (close_tag Em)" "c \<notin> set (open_tag Code)" "c \<notin> set (close_tag Code)"
  shows "\<not> template_char c"
proof
  assume "template_char c"
  then obtain k where "c \<in> set (open_tag k) \<or> c \<in> set (close_tag k)" unfolding template_char_def by blast
  with assms show False by (cases k) blast+
qed

lemma marker_not_template: "is_marker c \<Longrightarrow> \<not> template_char c"
proof -
  assume "is_marker c"
  then consider "c = CHR ''*''" | "c = CHR ''_''" | "c = CHR 0x60" unfolding is_marker_def by blast
  then show ?thesis
  proof cases
    case 1
    show ?thesis unfolding 1 by (rule no_template_char) simp_all
  next
    case 2
    show ?thesis unfolding 2 by (rule no_template_char) simp_all
  next
    case 3
    show ?thesis unfolding 3 by (rule no_template_char) simp_all
  qed
qed

lemma terminator_not_template: "is_line_terminator c \<Longrightarrow> \<not> template_char c"
proof -
  assume "is_line_terminator c"
  then consider "c = CHR 0x0A" | "c = CHR 0x0D" unfolding is_line_terminator_def by blast
  then show ?thesis
  proof cases
    case 1
    show ?thesis unfolding 1 by (rule no_template_char) simp_all
  next
    case 2
    show ?thesis unfolding 2 by (rule no_template_char) simp_all
  qed
qed

lemma lazy_until_decompose: "lazy_until d s = Some (inner, rest) \<Longrightarrow> s = inner @ d @ rest"
proof (induction s arbitrary: inner)
  case Nil
  then show ?case by (simp split: if_splits)
next
  case (Cons c cs)
  show ?case
  proof (cases "prefix d (c # cs)")
    case True
    with Cons.prems have "inner = []" "rest = drop (length d) (c # cs)" by simp_all
    moreover from True obtain zs where "c # cs = d @ zs" by (auto simp: prefix_def)
    ultimately show ?thesis by simp
  next
    case False
    with Cons.prems obtain inner' where "lazy_until d cs = Some (inner', rest)" "inner = c # inner'"
      by (auto split: if_splits option.splits)
    with Cons.IH[of inner'] show ?thesis by simp
  qed
qed

lemma delimited_decompose: "delimited d s = Some (inner, rest) \<Longrightarrow> s = d @ inner @ d @ rest"
proof -
  assume a: "delimited d s = Some (inner, rest)"
  then have p: "prefix d s" and l: "lazy_until d (drop (length d) s) = Some (inner, rest)"
    by (auto simp: delimited_def split: if_splits)
  from p obtain zs where s: "s = d @ zs" by (auto simp: prefix_def)
  with lazy_until_decompose[OF l] show ?thesis by simp
qed

lemma match_inline_decompose:
  "match_inline k s = Some (inner, rest) \<Longrightarrow>
   \<exists>m d. is_marker m \<and> s = (m # d) @ inner @ (m # d) @ rest"
proof (cases k)
  case Strong
  assume "match_inline k s = Some (inner, rest)"
  with Strong have "delimited ''**'' s = Some (inner, rest) \<or> delimited ''__'' s = Some (inner, rest)"
    by (auto split: option.splits)
  then show ?thesis
  proof
    assume "delimited ''**'' s = Some (inner, rest)"
    from delimited_decompose[OF this] have "is_marker CHR ''*'' \<and> s = (CHR ''*'' # ''*'') @ inner @ (CHR ''*'' # ''*'') @ rest"
      by (simp add: is_marker_def)
    then show ?thesis by blast
  next
    assume "delimited ''__'' s = Some (inner, rest)"
    from delimited_decompose[OF this] have "is_marker CHR ''_'' \<and> s = (CHR ''_'' # ''_'') @ inner @ (CHR ''_'' # ''_'') @ rest"
      by (simp add: is_marker_def)
    then show ?thesis by blast
  qed
next
  case Em
  assume "match_inline k s = Some (inner, rest)"
  with Em have "delimited ''*'' s = Some (inner, rest) \<or> delimited ''_'' s = Some (inner, rest)"
    by (auto split: option.splits)
  then show ?thesis
  proof
    assume "delimited ''*'' s = Some (inner, rest)"
    from delimited_decompose[OF this] have "is_marker CHR ''*'' \<and> s = (CHR ''*'' # []) @ inner @ (CHR ''*'' # []) @ rest"
      by (simp add: is_marker_def)
    then show ?thesis by blast
  next
    assume "delimited ''_'' s = Some (inner, rest)"
    from delimited_decompose[OF this] have "is_marker CHR ''_'' \<and> s = (CHR ''_'' # []) @ inner @ (CHR ''_'' # []) @ rest"
      by (simp add: is_marker_def)
    then show ?thesis by blast
  qed
next
  case Code
  assume a: "match_inline k s = Some (inner, rest)"
  with Code obtain cs where s: "s = CHR 0x60 # cs"
    and i: "inner = takeWhile (\<lambda>x. x \<noteq> CHR 0x60) cs"
    and r: "rest = tl (dropWhile (\<lambda>x. x \<noteq> CHR 0x60) cs)"
    and ne: "dropWhile (\<lambda>x. x \<noteq> CHR 0x60) cs \<noteq> []"
    by (cases s) (auto split: if_splits)
  from ne have "hd (dropWhile (\<lambda>x. x \<noteq> CHR 0x60) cs) = CHR 0x60"
    using hd_dropWhile[of "\<lambda>x. x \<noteq> CHR 0x60" cs] by simp
  with ne r have "dropWhile (\<lambda>x. x \<noteq> CHR 0x60) cs = CHR 0x60 # rest" by (cases "dropWhile (\<lambda>x. x \<noteq> CHR 0x60) cs") simp_all
  then have "cs = inner @ CHR 0x60 # rest" using i takeWhile_dropWhile_id[of "\<lambda>x. x \<noteq> CHR 0x60" cs] by simp
  with s have "is_marker CHR 0x60 \<and> s = (CHR 0x60 # []) @ inner @ (CHR 0x60 # []) @ rest"
    by (simp add: is_marker_def)
  then show ?thesis by blast
qed

lemma replace_inline_copy:
  "\<forall>c\<in>set p. \<not> is_marker c \<Longrightarrow> replace_inline k (p @ r) = p @ replace_inline k r"
proof (induction p)
  case Nil
  then show ?case by simp
next
  case (Cons c p)
  then have "\<not> is_marker c" by simp
  then have "match_inline k (c # p @ r) = None"
    using match_inline_head[of k c "p @ r"] by (cases "match_inline k (c # p @ r)") auto
  with Cons show ?case by simp
qed

lemma template_tail_no_marker: "template_tail p \<Longrightarrow> c \<in> set p \<Longrightarrow> \<not> is_marker c"
  using template_tail_chars marker_not_template by blast

lemma ok_template:
  assumes "template_tail t" and "CHR ''<'' \<notin> set t"
  shows "ok (CHR ''<'' # t)"
proof -
  have "prefix t t" by simp
  with assms(1) have "\<exists>p. template_tail p \<and> prefix p t" by blast
  with ok_no_lt[OF assms(2)] show ?thesis by simp
qed

lemma ok_open_tag: "ok (open_tag k)"
proof -
  have t: "template_tail (tl (open_tag k))" unfolding template_tail_def by blast
  have "open_tag k = CHR ''<'' # tl (open_tag k)" by (cases k) simp_all
  moreover have "CHR ''<'' \<notin> set (tl (open_tag k))" by (cases k) simp_all
  ultimately show ?thesis using ok_template[OF t] by simp
qed

lemma ok_close_tag: "ok (close_tag k)"
proof -
  have t: "template_tail (tl (close_tag k))" unfolding template_tail_def by blast
  have "close_tag k = CHR ''<'' # tl (close_tag k)" by (cases k) simp_all
  moreover have "CHR ''<'' \<notin> set (tl (close_tag k))" by (cases k) simp_all
  ultimately show ?thesis using ok_template[OF t] by simp
qed

lemma ok_replace_inline: "ok s \<Longrightarrow> ok (replace_inline k s)"
proof (induction k s rule: replace_inline.induct)
  case (1 k)
  then show ?case by simp
next
  case (2 k c cs)
  show ?case
  proof (cases "match_inline k (c # cs)")
    case None
    from "2.prems" have okcs: "ok cs" by simp
    have t: "ok (replace_inline k cs)" using "2.IH"(1)[OF None okcs] .
    have "\<exists>p. template_tail p \<and> prefix p (replace_inline k cs)" if "c = CHR ''<''"
    proof -
      from "2.prems" that obtain p where p: "template_tail p" "prefix p cs" by auto
      from p(2) obtain r where cs: "cs = p @ r" by (auto simp: prefix_def)
      have "\<forall>c\<in>set p. \<not> is_marker c" using template_tail_no_marker[OF p(1)] by blast
      from replace_inline_copy[OF this, of k r] cs have "prefix p (replace_inline k cs)" by simp
      with p(1) show ?thesis by blast
    qed
    with t None show ?thesis by simp
  next
    case (Some m)
    obtain inner rest where m: "m = (inner, rest)" by (cases m)
    from match_inline_decompose[OF Some[unfolded m]] obtain mk d where
      mk: "is_marker mk" and s: "c # cs = (mk # d) @ inner @ (mk # d) @ rest" by blast
    from "2.prems" s have o: "ok ((mk # d) @ inner @ (mk # d) @ rest)" by simp
    from ok_suffix[OF o] have o1: "ok (inner @ mk # (d @ rest))" by simp
    from ok_prefix[OF o1 marker_not_template[OF mk]] have oi: "ok inner" .
    from ok_suffix[of "(mk # d) @ inner @ (mk # d)" rest] o have orest: "ok rest" by simp
    have r: "ok (replace_inline k rest)" using "2.IH"(2)[OF Some m[symmetric] orest] .
    from ok_open_tag[of k] ok_close_tag[of k] oi r have "ok (open_tag k @ inner @ close_tag k @ replace_inline k rest)"
      by (intro ok_append)
    with Some m show ?thesis by simp
  qed
qed

lemma inert_append: "inert a \<Longrightarrow> inert b \<Longrightarrow> inert (a @ b)"
  by (simp add: inert_def)

lemma inert_Nil: "inert []"
  by (simp add: inert_def)

lemma tail_no_tag: "template_tail p \<Longrightarrow> tag_at (CHR ''<'' # p @ z) = None"
proof -
  assume "template_tail p"
  then obtain k where "p = tl (open_tag k) \<or> p = tl (close_tag k)"
    unfolding template_tail_def by (elim exE)
  then show ?thesis
  proof
    assume "p = tl (open_tag k)"
    then show ?thesis by (cases k) simp_all
  next
    assume "p = tl (close_tag k)"
    then show ?thesis by (cases k) simp_all
  qed
qed

lemma ok_inert: "ok s \<Longrightarrow> inert s"
proof (induction s)
  case Nil
  show ?case by (rule inert_Nil)
next
  case (Cons c cs)
  then have i: "inert cs" by simp
  have "tag_at (c # cs @ r) = None" for r
  proof (cases "c = CHR ''<''")
    case False
    then show ?thesis by simp
  next
    case True
    with Cons.prems obtain p where p: "template_tail p" "prefix p cs" by auto
    from p(2) obtain z where "cs = p @ z" by (auto simp: prefix_def)
    with tail_no_tag[OF p(1), of "z @ r"] True show ?thesis by simp
  qed
  with i show ?case by (simp add: inert_def)
qed

lemma inert_br: "inert ''<br/>''"
  by (simp add: inert_def)

lemma list_tags_piece: "piece_inert p \<Longrightarrow> list_tags (piece_html p @ r) = piece_tags p @ list_tags r"
proof (cases p)
  case (Para b)
  assume "piece_inert p"
  with Para have "list_tags (b @ ''</p>'' @ r) = list_tags (''</p>'' @ r)" by (simp add: inert_def)
  with Para show ?thesis by simp
next
  case (ListOpen t)
  then show ?thesis by (cases t) (simp_all add: ol_open_def ul_open_def tag_end_def is_ws_def)
next
  case (ListClose t)
  then show ?thesis by (cases t) (simp_all add: tag_end_def)
next
  case (Item i)
  assume "piece_inert p"
  with Item have "list_tags (i @ ''</li>'' @ r) = list_tags (''</li>'' @ r)" by (simp add: inert_def)
  with Item show ?thesis by simp
qed

lemma list_tags_pieces:
  "\<forall>p\<in>set ps. piece_inert p \<Longrightarrow> list_tags (concat (map piece_html ps)) = concat (map piece_tags ps)"
proof (induction ps)
  case Nil
  then show ?case by simp
next
  case (Cons p ps)
  then have "piece_inert p" and "list_tags (concat (map piece_html ps)) = concat (map piece_tags ps)" by simp_all
  with list_tags_piece[of p "concat (map piece_html ps)"] show ?case by simp
qed

lemma rest_of_line_split:
  "\<exists>post. s = rest_of_line s @ post \<and> (post = [] \<or> (\<exists>m x. post = m # x \<and> is_line_terminator m))"
proof -
  let ?post = "dropWhile (\<lambda>c. \<not> is_line_terminator c) s"
  have e: "s = rest_of_line s @ ?post" by (simp add: rest_of_line_def)
  have "?post = [] \<or> (\<exists>m x. ?post = m # x \<and> is_line_terminator m)"
  proof (cases ?post)
    case Nil
    then show ?thesis by simp
  next
    case (Cons m x)
    then have "?post \<noteq> []" by simp
    from hd_dropWhile[OF this] Cons have "is_line_terminator m" by simp
    with Cons show ?thesis by simp
  qed
  with e show ?thesis by blast
qed

lemma ok_rest_of_line: "ok (pre @ s) \<Longrightarrow> ok (rest_of_line s)"
proof -
  assume "ok (pre @ s)"
  then have o: "ok s" by (rule ok_suffix)
  from rest_of_line_split[of s] obtain post where
    s: "s = rest_of_line s @ post" and p: "post = [] \<or> (\<exists>m x. post = m # x \<and> is_line_terminator m)" by blast
  from p show ?thesis
  proof
    assume "post = []"
    with s o show ?thesis by simp
  next
    assume "\<exists>m x. post = m # x \<and> is_line_terminator m"
    then obtain m x where post: "post = m # x" and t: "is_line_terminator m" by blast
    with s o have "ok (rest_of_line s @ m # x)" by simp
    from ok_prefix[OF this terminator_not_template[OF t]] show ?thesis .
  qed
qed

lemma match_ol_item: "match_ol line = Some item \<Longrightarrow> \<exists>pre s. line = pre @ s \<and> item = rest_of_line s"
proof -
  assume a: "match_ol line = Some item"
  let ?a = "dropWhile is_ws line"
  from a obtain dot sp s where d: "dropWhile is_digit ?a = dot # sp # s" and i: "item = rest_of_line s"
    by (auto simp: match_ol_def Let_def split: if_splits list.splits)
  have "line = takeWhile is_ws line @ takeWhile is_digit ?a @ dropWhile is_digit ?a" by simp
  with d have "line = (takeWhile is_ws line @ takeWhile is_digit ?a @ [dot, sp]) @ s" by simp
  with i show ?thesis by blast
qed

lemma match_ul_item: "match_ul line = Some item \<Longrightarrow> \<exists>pre s. line = pre @ s \<and> item = rest_of_line s"
proof -
  assume a: "match_ul line = Some item"
  from a obtain bullet sp s where d: "dropWhile is_ws line = bullet # sp # s" and i: "item = rest_of_line s"
    by (auto simp: match_ul_def split: if_splits list.splits)
  have "line = takeWhile is_ws line @ dropWhile is_ws line" by simp
  with d have "line = (takeWhile is_ws line @ [bullet, sp]) @ s" by simp
  with i show ?thesis by blast
qed

lemma ok_inline_markup: "ok s \<Longrightarrow> ok (inline_markup s)"
  by (simp add: inline_markup_def ok_replace_inline)

lemma pieces_inert:
  "\<forall>l\<in>set ls. ok l \<Longrightarrow> inert b \<Longrightarrow> \<forall>p\<in>set (pieces cur b ls). piece_inert p"
proof (induction ls arbitrary: cur b)
  case Nil
  then show ?case by (auto simp: para_pieces_def close_pieces_def split: option.splits)
next
  case (Cons rawLine ls)
  let ?line = "inline_markup rawLine"
  from Cons.prems have okl: "ok ?line" and rest: "\<forall>l\<in>set ls. ok l" by (simp_all add: ok_inline_markup)
  have pb: "\<forall>p\<in>set (para_pieces b). piece_inert p" using Cons.prems(2) by (auto simp: para_pieces_def)
  have cl: "\<forall>p\<in>set (close_pieces cur). piece_inert p" by (auto simp: close_pieces_def split: option.splits)
  show ?case
  proof (cases "match_ol ?line")
    case (Some item)
    from match_ol_item[OF Some] obtain pre s where "?line = pre @ s" "item = rest_of_line s" by blast
    with okl ok_rest_of_line[of pre s] have "inert item" by (simp add: ok_inert)
    with Some pb cl Cons.IH[OF rest inert_Nil, of "Some Ol"] show ?thesis by auto
  next
    case None
    show ?thesis
    proof (cases "match_ul ?line")
      case (Some item)
      from match_ul_item[OF Some] obtain pre s where "?line = pre @ s" "item = rest_of_line s" by blast
      with okl ok_rest_of_line[of pre s] have "inert item" by (simp add: ok_inert)
      with None Some pb cl Cons.IH[OF rest inert_Nil, of "Some Ul"] show ?thesis by auto
    next
      case N2: None
      show ?thesis
      proof (cases "trim ?line = []")
        case True
        with None N2 pb cl Cons.IH[OF rest inert_Nil, of None] show ?thesis by auto
      next
        case False
        have "inert (if b \<noteq> [] then ''<br/>'' else [])"
          using inert_br inert_Nil by (cases "b = []") simp_all
        then have "inert (b @ (if b \<noteq> [] then ''<br/>'' else []) @ ?line)"
          using Cons.prems(2) ok_inert[OF okl] by (intro inert_append)
        with None N2 False cl Cons.IH[OF rest, of "b @ (if b \<noteq> [] then ''<br/>'' else []) @ ?line" None]
        show ?thesis by auto
      qed
    qed
  qed
qed

lemma split_from_chars: "l \<in> set (split_from cur s) \<Longrightarrow> set l \<subseteq> set cur \<union> set s"
proof (induction s arbitrary: cur)
  case Nil
  then show ?case by simp
next
  case (Cons c cs)
  show ?case
  proof (cases "c = CHR 0x0A")
    case True
    with Cons.prems have "l = cur \<or> l \<in> set (split_from [] cs)" by simp
    then show ?thesis
    proof
      assume "l = cur"
      then show ?thesis by auto
    next
      assume "l \<in> set (split_from [] cs)"
      from Cons.IH[OF this] show ?thesis by auto
    qed
  next
    case False
    with Cons.prems have "l \<in> set (split_from (cur @ [c]) cs)" by simp
    from Cons.IH[OF this] show ?thesis by auto
  qed
qed

lemma split_lines_chars: "l \<in> set (split_lines s) \<Longrightarrow> set l \<subseteq> set s"
  using split_from_chars[of l "[]" s] by (simp add: split_lines_def)

lemma renderMarkdown_pieces:
  "renderMarkdown text = concat (map piece_html (pieces None [] (split_lines text)))"
proof (cases "text = []")
  case True
  then show ?thesis
    by (simp add: renderMarkdown_def split_lines_def inline_markup_def match_ol_def match_ul_def
          trim_def para_pieces_def close_pieces_def)
next
  case False
  with render_pieces[of "\<lparr>html = [], listType = None, paraBuffer = []\<rparr>" "split_lines text"]
  show ?thesis by (simp add: renderMarkdown_def)
qed

lemma list_tags_of_fragment:
  assumes "CHR ''<'' \<notin> set text"
  shows "list_tags (renderMarkdown text) = concat (map piece_tags (pieces None [] (split_lines text)))"
proof -
  have "\<forall>l\<in>set (split_lines text). ok l"
  proof
    fix l assume "l \<in> set (split_lines text)"
    from split_lines_chars[OF this] assms have "CHR ''<'' \<notin> set l" by blast
    then show "ok l" by (rule ok_no_lt)
  qed
  from pieces_inert[OF this inert_Nil] show ?thesis
    by (simp add: renderMarkdown_pieces list_tags_pieces)
qed

text \<open>
  Claim C4, as stated, at an input that is itself an end tag: the renderer does not
  escape its input, so the fragment holds a list end tag that no start tag opens.
\<close>

theorem render_raw_html_counterexample:
  "renderMarkdown ''</ol>'' = ''<p class='' @ [CHR 0x22] @ ''my-2'' @ [CHR 0x22] @ ''></ol></p>''
   \<and> list_tags (renderMarkdown ''</ol>'') = [Closing Ol]
   \<and> \<not> nested [] (list_tags (renderMarkdown ''</ol>''))"
  by code_simp

text \<open>
  Claim C4, amended. For every input string, the fragment that \<^verbatim>\<open>renderMarkdown\<close>
  returns is the concatenation of the pieces the renderer writes, and the list start and
  end tags among these pieces are balanced and never nested: a list is opened only when
  no list is open, and each list opened is closed by its own end tag before another is
  opened and before the end. For every input in which \<open><\<close> does not occur these are all
  the list tags of the fragment, so the tags read from the fragment itself are balanced
  and never nested. Ordered and unordered list lines in alternation give lists that are
  closed and reopened in turn.
\<close>

theorem render_list_tags_balanced:
  "renderMarkdown text = concat (map piece_html (pieces None [] (split_lines text)))
   \<and> one_open None (concat (map piece_tags (pieces None [] (split_lines text))))
   \<and> (CHR ''<'' \<notin> set text \<longrightarrow>
         list_tags (renderMarkdown text) = concat (map piece_tags (pieces None [] (split_lines text)))
         \<and> one_open None (list_tags (renderMarkdown text))
         \<and> nested [] (list_tags (renderMarkdown text)))"
proof -
  have p: "one_open None (concat (map piece_tags (pieces None [] (split_lines text))))"
    by (rule pieces_one_open)
  have "list_tags (renderMarkdown text) = concat (map piece_tags (pieces None [] (split_lines text)))
        \<and> one_open None (list_tags (renderMarkdown text)) \<and> nested [] (list_tags (renderMarkdown text))"
    if "CHR ''<'' \<notin> set text"
  proof -
    note e = list_tags_of_fragment[OF that]
    from e p have o: "one_open None (list_tags (renderMarkdown text))" by simp
    from one_open_nested[OF o] e o show ?thesis by simp
  qed
  with p renderMarkdown_pieces[of "text"] show ?thesis by blast
qed

theorem render_list_tags_balanced_witness:
  "CHR ''<'' \<notin> set alternating_lists
   \<and> list_tags (renderMarkdown alternating_lists) =
       [Opening Ol, Closing Ol, Opening Ul, Closing Ul, Opening Ol, Closing Ol, Opening Ul, Closing Ul]
   \<and> one_open None (list_tags (renderMarkdown alternating_lists))
   \<and> nested [] (list_tags (renderMarkdown alternating_lists))"
proof -
  have a: "CHR ''<'' \<notin> set alternating_lists" by (simp add: alternating_lists_def)
  have b: "list_tags (renderMarkdown alternating_lists) =
       [Opening Ol, Closing Ol, Opening Ul, Closing Ul, Opening Ol, Closing Ol, Opening Ul, Closing Ul]"
    by code_simp
  from a b render_list_tags_balanced[of alternating_lists] show ?thesis by blast
qed

section \<open>Properties of the persisted session\<close>

lemma upload_ls_returned:
  assumes "handleUploadAndStartChat_ls r st = Some (Returned, st')" and "files st \<noteq> []"
  shows "\<exists>store qs lg. store \<noteq> [] \<and> activeRagStoreName st' = Some store \<and> documentName st' = docName (files st)
           \<and> chatHistory st' = [] \<and> exampleQuestions st' = qs \<and> status st' = Chatting
           \<and> generateExampleQuestions True r = Inr (qs, lg)"
proof -
  from assms obtain c st2 st3 where
    t: "upload_try r (files st) st2 = Some (None, st3)" and s: "st' = st3\<lparr>uploadProgress := None\<rparr>"
    and a: "ai st2 = c" and i: "initialize (if isAistudioAvailable st then None else Some (apiKey st)) r = Inr c"
    by (auto simp: handleUploadAndStartChat_ls_def Let_def split: if_splits sum.splits option.splits prod.splits)
  from i have "c = True" by (auto simp: initialize_def Let_def split: if_splits)
  with upload_try_success[OF t] s a show ?thesis by auto
qed

lemma handleSendMessage_session:
  "activeRagStoreName (snd (handleSendMessage r msg st)) = activeRagStoreName st
   \<and> documentName (snd (handleSendMessage r msg st)) = documentName st
   \<and> exampleQuestions (snd (handleSendMessage r msg st)) = exampleQuestions st"
  by (simp add: handleSendMessage_def handleError_def Let_def split: option.splits sum.splits)

text \<open>
  Claim C8. In the version of \<^verbatim>\<open>App\<close> that keeps the session in local storage (the
  file \<^verbatim>\<open>src/App.tsx\<close> has no storage code). Let an upload succeed, and let \<open>s\<close> be a
  state of the session it began: the state the upload leaves, or a later one with the
  same store handle, such as the state after a message was sent. Right after the upload
  the storage holds the document label computed from the files and the empty history.
  At \<open>s\<close> the storage holds the store handle, the document label, the chat history and
  the example questions of \<open>s\<close> under their four keys, and a reload reads the same four
  values back (\<^verbatim>\<open>JSON.parse\<close> undoing \<^verbatim>\<open>JSON.stringify\<close> on the history and the
  questions stored). When the session is ended the handle is cleared and the four
  entries are removed together.
\<close>

theorem session_persisted:
  assumes "handleUploadAndStartChat_ls r st = Some (Returned, st')" and "files st \<noteq> []"
    and "activeRagStoreName s = activeRagStoreName st'"
    and "parse_history J (stringify_history J (chatHistory s)) = Some (chatHistory s)"
    and "stringify_history J (chatHistory s) \<noteq> []"
    and "parse_questions J (stringify_questions J (exampleQuestions s)) = Some (exampleQuestions s)"
    and "stringify_questions J (exampleQuestions s) \<noteq> []"
  shows "persist_session J st' sto ''documentName'' = Some (docName (files st))
       \<and> persist_session J st' sto ''chatHistory'' = Some (stringify_history J [])
       \<and> activeRagStoreName (snd (handleSendMessage r' msg s)) = activeRagStoreName st'
       \<and> (\<exists>store. store \<noteq> [] \<and> activeRagStoreName s = Some store
            \<and> persist_session J s sto ''ragStoreName'' = Some store)
       \<and> persist_session J s sto ''documentName'' = Some (documentName s)
       \<and> persist_session J s sto ''chatHistory'' = Some (stringify_history J (chatHistory s))
       \<and> persist_session J s sto ''exampleQuestions'' = Some (stringify_questions J (exampleQuestions s))
       \<and> activeRagStoreName (initial_state J (persist_session J s sto)) = activeRagStoreName s
       \<and> documentName (initial_state J (persist_session J s sto)) = documentName s
       \<and> chatHistory (initial_state J (persist_session J s sto)) = chatHistory s
       \<and> exampleQuestions (initial_state J (persist_session J s sto)) = exampleQuestions s
       \<and> activeRagStoreName (handleEndChat s) = None
       \<and> (\<forall>k\<in>set session_keys. persist_session J (handleEndChat s) (persist_session J s sto) k = None)"
proof -
  from upload_ls_returned[OF assms(1,2)] obtain store where
    st: "store \<noteq> []" "activeRagStoreName st' = Some store" and h: "chatHistory st' = []"
    and d: "documentName st' = docName (files st)" by blast
  from st assms(3) have a: "activeRagStoreName s = Some store" by simp
  have p: "persist_session J s sto =
      sto(''ragStoreName'' \<mapsto> store, ''documentName'' \<mapsto> documentName s,
          ''chatHistory'' \<mapsto> stringify_history J (chatHistory s),
          ''exampleQuestions'' \<mapsto> stringify_questions J (exampleQuestions s))"
    using st a by (simp add: persist_session_def)
  have e: "activeRagStoreName (handleEndChat s) = None" by (simp add: handleEndChat_def)
  have u1: "persist_session J st' sto ''documentName'' = Some (docName (files st))"
    using st d by (simp add: persist_session_def)
  have u2: "persist_session J st' sto ''chatHistory'' = Some (stringify_history J [])"
    using st h by (simp add: persist_session_def)
  have m: "activeRagStoreName (snd (handleSendMessage r' msg s)) = activeRagStoreName st'"
    using handleSendMessage_session[of r' msg s] assms(3) by simp
  have 1: "\<exists>store. store \<noteq> [] \<and> activeRagStoreName s = Some store
            \<and> persist_session J s sto ''ragStoreName'' = Some store"
    using st a by (simp add: p)
  have 2: "persist_session J s sto ''documentName'' = Some (documentName s)" by (simp add: p)
  have 3: "persist_session J s sto ''chatHistory'' = Some (stringify_history J (chatHistory s))" by (simp add: p)
  have 4: "persist_session J s sto ''exampleQuestions'' = Some (stringify_questions J (exampleQuestions s))" by (simp add: p)
  have 5: "activeRagStoreName (initial_state J (persist_session J s sto)) = activeRagStoreName s"
    using a by (simp add: p initial_state_def)
  have 6: "documentName (initial_state J (persist_session J s sto)) = documentName s"
    by (simp add: p initial_state_def item_or_def)
  have 7: "chatHistory (initial_state J (persist_session J s sto)) = chatHistory s"
    using assms(4,5) by (simp add: p initial_state_def item_or_def)
  have 8: "exampleQuestions (initial_state J (persist_session J s sto)) = exampleQuestions s"
    using assms(6,7) by (simp add: p initial_state_def item_or_def)
  have 9: "\<forall>k\<in>set session_keys. persist_session J (handleEndChat s) (persist_session J s sto) k = None"
    using e by (simp add: persist_session_def[of J "handleEndChat s"] remove_session_def session_keys_def)
  from u1 u2 m 1 2 3 4 5 6 7 8 9 e show ?thesis by blast
qed

theorem session_persisted_witness:
  "(let st' = snd (the (handleUploadAndStartChat_ls prompt_remote (welcome_state_ls ''key'' [File ''a.pdf''])));
        s = snd (handleSendMessage prompt_remote ''hello'' st');
        sto = persist_session example_JSON s Map.empty
    in persist_session example_JSON st' Map.empty ''chatHistory'' = Some ''[]''
       \<and> chatHistory s = hello_history
       \<and> sto ''ragStoreName'' = Some ''fileSearchStores/s1''
       \<and> sto ''documentName'' = Some ''a.pdf''
       \<and> sto ''chatHistory'' = Some hello_history_text
       \<and> sto ''exampleQuestions'' = Some two_questions_text
       \<and> chatHistory (initial_state example_JSON sto) = hello_history
       \<and> exampleQuestions (initial_state example_JSON sto) = [''q1'', ''q2'']
       \<and> documentName (initial_state example_JSON sto) = ''a.pdf''
       \<and> activeRagStoreName (initial_state example_JSON sto) = Some ''fileSearchStores/s1''
       \<and> persist_session example_JSON (handleEndChat s) sto ''ragStoreName'' = None
       \<and> persist_session example_JSON (handleEndChat s) sto ''chatHistory'' = None)"
proof -
  let ?st = "welcome_state_ls ''key'' [File ''a.pdf'']"
  have "\<exists>st'. handleUploadAndStartChat_ls prompt_remote ?st = Some (Returned, st')
          \<and> activeRagStoreName st' = Some ''fileSearchStores/s1'' \<and> documentName st' = ''a.pdf''
          \<and> chatHistory st' = [] \<and> exampleQuestions st' = [''q1'', ''q2''] \<and> ai st'"
    by (simp add: handleUploadAndStartChat_ls_def welcome_state_ls_def isApiKeyConfigured_def trim_def is_ws_def
          prompt_remote_def initialize_def Let_def upload_try_def createRagStore_def uploadToRagStore_def
          poll_done generateExampleQuestions_def ai_begin_file docName_def)
  then obtain st' where h: "handleUploadAndStartChat_ls prompt_remote ?st = Some (Returned, st')"
    and f: "activeRagStoreName st' = Some ''fileSearchStores/s1''" "documentName st' = ''a.pdf''"
      "chatHistory st' = []" "exampleQuestions st' = [''q1'', ''q2'']" "ai st'" by blast
  define s where "s = snd (handleSendMessage prompt_remote ''hello'' st')"
  have fs: "files ?st \<noteq> []" by (simp add: welcome_state_ls_def)
  have g: "activeRagStoreName s = Some ''fileSearchStores/s1''" "documentName s = ''a.pdf''"
      "chatHistory s = hello_history" "exampleQuestions s = [''q1'', ''q2'']"
    by (simp_all add: s_def handleSendMessage_def f fileSearch_def prompt_remote_def Let_def hello_history_def)
  have a: "activeRagStoreName s = activeRagStoreName st'" by (simp add: f g)
  have hne: "hello_history \<noteq> []" by (simp add: hello_history_def)
  have j1: "parse_history example_JSON (stringify_history example_JSON (chatHistory s)) = Some (chatHistory s)"
    and j2: "stringify_history example_JSON (chatHistory s) \<noteq> []"
    and j3: "parse_questions example_JSON (stringify_questions example_JSON (exampleQuestions s)) = Some (exampleQuestions s)"
    and j4: "stringify_questions example_JSON (exampleQuestions s) \<noteq> []"
    by (simp_all add: example_JSON_def g hne two_questions_text_def hello_history_text_def)
  have t: "stringify_history example_JSON [] = ''[]''"
    "stringify_history example_JSON hello_history = hello_history_text"
    "stringify_questions example_JSON [''q1'', ''q2''] = two_questions_text"
    by (simp_all add: example_JSON_def hne)
  from session_persisted[OF h fs a j1 j2 j3 j4, where sto = Map.empty] f g t
  have "persist_session example_JSON st' Map.empty ''chatHistory'' = Some ''[]''
       \<and> persist_session example_JSON s Map.empty ''ragStoreName'' = Some ''fileSearchStores/s1''
       \<and> persist_session example_JSON s Map.empty ''documentName'' = Some ''a.pdf''
       \<and> persist_session example_JSON s Map.empty ''chatHistory'' = Some hello_history_text
       \<and> persist_session example_JSON s Map.empty ''exampleQuestions'' = Some two_questions_text
       \<and> chatHistory (initial_state example_JSON (persist_session example_JSON s Map.empty)) = hello_history
       \<and> exampleQuestions (initial_state example_JSON (persist_session example_JSON s Map.empty)) = [''q1'', ''q2'']
       \<and> documentName (initial_state example_JSON (persist_session example_JSON s Map.empty)) = ''a.pdf''
       \<and> activeRagStoreName (initial_state example_JSON (persist_session example_JSON s Map.empty)) = Some ''fileSearchStores/s1''
       \<and> persist_session example_JSON (handleEndChat s) (persist_session example_JSON s Map.empty) ''ragStoreName'' = None
       \<and> persist_session example_JSON (handleEndChat s) (persist_session example_JSON s Map.empty) ''chatHistory'' = None"
    by (simp add: session_keys_def)
  with g show ?thesis by (simp add: h Let_def s_def)
qed

end
